theory Spec2Isabelle
  imports Main
begin

section \<open>Python strings and their UTF-8 size\<close>

text \<open>
  A Python \<open>str\<close> is a sequence of code points. The model uses \<open>string\<close>; a
  \<open>char\<close> stands for the code point with the same number (U+0000 .. U+00FF), so
  \<open>length\<close> is Python's \<open>len\<close> and the UTF-8 encoding of a character takes one
  byte below U+0080 and two bytes from there on.
\<close>

definition utf8_width :: "char \<Rightarrow> nat" where
  "utf8_width c = (if (of_char c :: nat) < 128 then 1 else 2)"

definition utf8_len :: "string \<Rightarrow> nat" where
  "utf8_len s = sum_list (map utf8_width s)"

definition digit_char :: "nat \<Rightarrow> char" where
  "digit_char n = ''0123456789'' ! n"

fun str_nat :: "nat \<Rightarrow> string" where
  "str_nat n = (if n < 10 then [digit_char n] else str_nat (n div 10) @ [digit_char (n mod 10)])"

definition str_int :: "int \<Rightarrow> string" where
  "str_int i = (if i < 0 then CHR ''-'' # str_nat (nat (- i)) else str_nat (nat i))"

section \<open>JSON values and \<open>json.dumps(obj, ensure_ascii=False, indent=2)\<close>\<close>

datatype json =
    JNull
  | JBool bool
  | JInt int
  | JStr string
  | JArr "json list"
  | JObj "(string \<times> json) list"

definition hex_char :: "nat \<Rightarrow> char" where
  "hex_char n = ''0123456789abcdef'' ! n"

definition esc_char :: "char \<Rightarrow> string" where
  "esc_char c =
     (if c = CHR 0x22 then [CHR 0x5C, CHR 0x22]
      else if c = CHR 0x5C then [CHR 0x5C, CHR 0x5C]
      else if c = CHR 0x0A then [CHR 0x5C, CHR ''n'']
      else if c = CHR 0x0D then [CHR 0x5C, CHR ''r'']
      else if c = CHR 0x09 then [CHR 0x5C, CHR ''t'']
      else if c = CHR 0x08 then [CHR 0x5C, CHR ''b'']
      else if c = CHR 0x0C then [CHR 0x5C, CHR ''f'']
      else if (of_char c :: nat) < 32
        then [CHR 0x5C, CHR ''u'', CHR ''0'', CHR ''0'',
              hex_char (of_char c div 16), hex_char (of_char c mod 16)]
      else [c])"

definition encode_str :: "string \<Rightarrow> string" where
  "encode_str s = CHR 0x22 # concat (map esc_char s) @ [CHR 0x22]"

definition newline_indent :: "nat \<Rightarrow> string" where
  "newline_indent l = CHR 0x0A # replicate (2 * l) CHR '' ''"

fun dumps_at :: "nat \<Rightarrow> json \<Rightarrow> string"
  and dumps_items :: "nat \<Rightarrow> json list \<Rightarrow> string"
  and dumps_members :: "nat \<Rightarrow> (string \<times> json) list \<Rightarrow> string"
where
  "dumps_at l JNull = ''null''"
| "dumps_at l (JBool b) = (if b then ''true'' else ''false'')"
| "dumps_at l (JInt i) = str_int i"
| "dumps_at l (JStr s) = encode_str s"
| "dumps_at l (JArr xs) =
     (if xs = [] then ''[]''
      else CHR ''['' # newline_indent (Suc l) @ dumps_items (Suc l) xs @ newline_indent l @ '']'')"
| "dumps_at l (JObj kvs) =
     (if kvs = [] then ''{}''
      else CHR ''{'' # newline_indent (Suc l) @ dumps_members (Suc l) kvs @ newline_indent l @ ''}'')"
| "dumps_items l [] = []"
| "dumps_items l (x # xs) =
     dumps_at l x @ (if xs = [] then [] else CHR '','' # newline_indent l @ dumps_items l xs)"
| "dumps_members l [] = []"
| "dumps_members l (kv # kvs) =
     encode_str (fst kv) @ '': '' @ dumps_at l (snd kv)
       @ (if kvs = [] then [] else CHR '','' # newline_indent l @ dumps_members l kvs)"

definition dumps :: "json \<Rightarrow> string" where
  "dumps v = dumps_at 0 v"


section \<open>The tag filter of write_json\<close>


fun match_tag :: "string \<Rightarrow> string option" where
  "match_tag (c # d # cs) =
     (if c = CHR ''<'' \<and> d \<noteq> CHR ''>''
      then (case dropWhile (\<lambda>x. x \<noteq> CHR ''>'') cs of [] \<Rightarrow> None | g # rest \<Rightarrow> Some rest)
      else None)"
| "match_tag cs = None"

lemma match_tag_shorter: "match_tag s = Some rest \<Longrightarrow> length rest < length s"
proof (cases s rule: match_tag.cases)
  case (1 c d cs)
  assume m: "match_tag s = Some rest"
  have "length (dropWhile (\<lambda>x. x \<noteq> CHR ''>'') cs) \<le> length cs"
    by (rule length_dropWhile_le)
  with m 1 show ?thesis
    by (auto split: if_splits list.splits)
qed simp_all

function strip_tags :: "string \<Rightarrow> string" where
  "strip_tags [] = []"
| "strip_tags (c # cs) =
     (case match_tag (c # cs) of
        Some rest \<Rightarrow> strip_tags rest
      | None \<Rightarrow> c # strip_tags cs)"
  by pat_completeness auto
termination
  by (relation "measure length") (auto dest: match_tag_shorter)

fun has_tag :: "string \<Rightarrow> bool" where
  "has_tag [] = False"
| "has_tag (c # cs) = (match_tag (c # cs) \<noteq> None \<or> has_tag cs)"

definition write_json_text :: "json \<Rightarrow> string" where
  "write_json_text obj =
     (let data = dumps obj in if has_tag data then strip_tags data else data)"


lemma match_tag_split:
  "match_tag s = Some rest \<Longrightarrow>
     \<exists>body. s = CHR ''<'' # body @ CHR ''>'' # rest \<and> body \<noteq> [] \<and> CHR ''>'' \<notin> set body"
proof (cases s rule: match_tag.cases)
  case (1 c d cs)
  assume m: "match_tag s = Some rest"
  let ?P = "\<lambda>x. x \<noteq> CHR ''>''"
  from m 1 have c: "c = CHR ''<''" and d: "d \<noteq> CHR ''>''"
    and dw: "\<exists>g. dropWhile ?P cs = g # rest"
    by (auto split: if_splits list.splits)
  then obtain g where g: "dropWhile ?P cs = g # rest" by blast
  have "g = CHR ''>''" using hd_dropWhile[of ?P cs] g by auto
  moreover have "cs = takeWhile ?P cs @ dropWhile ?P cs" by simp
  ultimately have "cs = takeWhile ?P cs @ CHR ''>'' # rest" using g by simp
  moreover have "CHR ''>'' \<notin> set (takeWhile ?P cs)" by (auto dest: set_takeWhileD)
  ultimately show ?thesis using 1 c d
    by (intro exI[of _ "d # takeWhile ?P cs"]) auto
qed simp_all

lemma match_tag_intro:
  assumes "body \<noteq> []" "CHR ''>'' \<notin> set body"
  shows "match_tag (CHR ''<'' # body @ CHR ''>'' # rest) = Some rest"
proof -
  from assms obtain d bs where b: "body = d # bs" by (cases body) auto
  with assms have "d \<noteq> CHR ''>''" "CHR ''>'' \<notin> set bs" by auto
  then have "dropWhile (\<lambda>x. x \<noteq> CHR ''>'') (bs @ CHR ''>'' # rest) = CHR ''>'' # rest"
    by (induction bs) auto
  with b \<open>d \<noteq> CHR ''>''\<close> show ?thesis by simp
qed

lemma match_tag_no_gt: "CHR ''>'' \<notin> set t \<Longrightarrow> match_tag (c # t) = None"
proof (cases t)
  case (Cons d cs)
  assume "CHR ''>'' \<notin> set t"
  with Cons have "dropWhile (\<lambda>x. x \<noteq> CHR ''>'') cs = []"
    by (auto simp: dropWhile_eq_Nil_conv)
  then show ?thesis unfolding Cons by (simp del: dropWhile_eq_Nil_conv)
qed simp

lemma has_tag_iff:
  "has_tag s \<longleftrightarrow>
     (\<exists>pre body post. s = pre @ CHR ''<'' # body @ CHR ''>'' # post \<and> body \<noteq> [] \<and> CHR ''>'' \<notin> set body)"
  (is "_ \<longleftrightarrow> ?R s")
proof
  show "has_tag s \<Longrightarrow> ?R s"
  proof (induction s)
    case (Cons c cs)
    show ?case
    proof (cases "match_tag (c # cs)")
      case (Some rest)
      from match_tag_split[OF Some] obtain body where
        "c # cs = [] @ CHR ''<'' # body @ CHR ''>'' # rest" "body \<noteq> []" "CHR ''>'' \<notin> set body"
        by auto
      then show ?thesis by blast
    next
      case None
      with Cons.prems have "has_tag cs" by simp
      from Cons.IH[OF this] obtain pre body post where
        "cs = pre @ CHR ''<'' # body @ CHR ''>'' # post" "body \<noteq> []" "CHR ''>'' \<notin> set body"
        by blast
      then have "c # cs = (c # pre) @ CHR ''<'' # body @ CHR ''>'' # post" by simp
      with \<open>body \<noteq> []\<close> \<open>CHR ''>'' \<notin> set body\<close> show ?thesis by blast
    qed
  qed simp
next
  assume "?R s"
  then obtain pre body post where
    s: "s = pre @ CHR ''<'' # body @ CHR ''>'' # post" and b: "body \<noteq> []" "CHR ''>'' \<notin> set body"
    by blast
  have "has_tag (pre @ CHR ''<'' # body @ CHR ''>'' # post)"
    by (induction pre) (simp_all add: match_tag_intro[OF b])
  with s show "has_tag s" by simp
qed

lemma set_strip_tags: "set (strip_tags s) \<subseteq> set s"
proof (induction s rule: strip_tags.induct)
  case (2 c cs)
  show ?case
  proof (cases "match_tag (c # cs)")
    case None
    with 2 show ?thesis by auto
  next
    case (Some rest)
    from match_tag_split[OF Some] have "set rest \<subseteq> set (c # cs)" by auto
    with 2 Some show ?thesis by auto
  qed
qed simp

lemma match_tag_strip_None:
  assumes "match_tag (c # cs) = None"
  shows "match_tag (c # strip_tags cs) = None"
proof (cases "c = CHR ''<''")
  case False
  then show ?thesis by (cases "strip_tags cs") simp_all
next
  case True
  show ?thesis
  proof (cases cs)
    case Nil
    then show ?thesis by simp
  next
    case (Cons d ds)
    show ?thesis
    proof (cases "d = CHR ''>''")
      case True
      with Cons have "strip_tags cs = d # strip_tags ds" by (cases ds) simp_all
      with True show ?thesis by simp
    next
      case False
      with assms Cons \<open>c = CHR ''<''\<close> have "dropWhile (\<lambda>x. x \<noteq> CHR ''>'') ds = []"
        by (simp split: list.splits)
      then have "CHR ''>'' \<notin> set ds" by (auto simp: dropWhile_eq_Nil_conv)
      with False Cons have "CHR ''>'' \<notin> set cs" by simp
      with set_strip_tags[of cs] have "CHR ''>'' \<notin> set (strip_tags cs)" by blast
      then show ?thesis by (rule match_tag_no_gt)
    qed
  qed
qed

lemma no_tag_strip_tags: "\<not> has_tag (strip_tags s)"
proof (induction s rule: strip_tags.induct)
  case (2 c cs)
  show ?case
  proof (cases "match_tag (c # cs)")
    case None
    with 2 match_tag_strip_None[OF None] show ?thesis by simp
  next
    case (Some rest)
    with 2 show ?thesis by simp
  qed
qed simp

lemma strip_tags_id: "\<not> has_tag s \<Longrightarrow> strip_tags s = s"
  by (induction s) auto

lemma utf8_len_append [simp]: "utf8_len (xs @ ys) = utf8_len xs + utf8_len ys"
  by (simp add: utf8_len_def)

lemma utf8_len_Cons: "utf8_len (c # cs) = utf8_width c + utf8_len cs"
  by (simp add: utf8_len_def)

lemma utf8_len_Nil [simp]: "utf8_len [] = 0"
  by (simp add: utf8_len_def)

lemma utf8_width_pos: "0 < utf8_width c"
  by (simp add: utf8_width_def)

lemma utf8_len_strip_le: "utf8_len (strip_tags s) \<le> utf8_len s"
proof (induction s rule: strip_tags.induct)
  case (2 c cs)
  show ?case
  proof (cases "match_tag (c # cs)")
    case None
    with 2 show ?thesis by (simp add: utf8_len_Cons)
  next
    case (Some rest)
    from match_tag_split[OF Some] obtain body where "c # cs = (CHR ''<'' # body @ [CHR ''>'']) @ rest"
      by auto
    then have "utf8_len (c # cs) = utf8_len (CHR ''<'' # body @ [CHR ''>'']) + utf8_len rest"
      by (simp only: utf8_len_append)
    then have "utf8_len rest \<le> utf8_len (c # cs)" by simp
    with 2 Some show ?thesis by simp
  qed
qed simp

lemma utf8_len_strip_less: "has_tag s \<Longrightarrow> utf8_len (strip_tags s) < utf8_len s"
proof (induction s rule: strip_tags.induct)
  case (2 c cs)
  show ?case
  proof (cases "match_tag (c # cs)")
    case None
    with 2 show ?thesis by (simp add: utf8_len_Cons)
  next
    case (Some rest)
    from match_tag_split[OF Some] obtain body where "c # cs = CHR ''<'' # (body @ [CHR ''>'']) @ rest"
      by auto
    then have "utf8_len rest < utf8_len (c # cs)"
      using utf8_width_pos[of "CHR ''<''"] by (simp add: utf8_len_Cons)
    moreover have "utf8_len (strip_tags rest) \<le> utf8_len rest" by (rule utf8_len_strip_le)
    ultimately show ?thesis using Some by simp
  qed
qed simp

section \<open>\<open>json.loads\<close>\<close>

datatype error = JSONDecodeError | TypeError | FileNotFoundError

definition is_ws :: "char \<Rightarrow> bool" where
  "is_ws c \<longleftrightarrow> c = CHR '' '' \<or> c = CHR 0x09 \<or> c = CHR 0x0A \<or> c = CHR 0x0D"

definition skip_ws :: "string \<Rightarrow> string" where
  "skip_ws s = dropWhile is_ws s"

definition hex_val :: "char \<Rightarrow> nat option" where
  "hex_val c =
     (let n = (of_char c :: nat) in
      if 48 \<le> n \<and> n \<le> 57 then Some (n - 48)
      else if 97 \<le> n \<and> n \<le> 102 then Some (n - 87)
      else if 65 \<le> n \<and> n \<le> 70 then Some (n - 55)
      else None)"

definition unescape :: "char \<Rightarrow> char option" where
  "unescape e =
     (if e = CHR 0x22 then Some (CHR 0x22)
      else if e = CHR 0x5C then Some (CHR 0x5C)
      else if e = CHR ''/'' then Some (CHR ''/'')
      else if e = CHR ''b'' then Some (CHR 0x08)
      else if e = CHR ''f'' then Some (CHR 0x0C)
      else if e = CHR ''n'' then Some (CHR 0x0A)
      else if e = CHR ''r'' then Some (CHR 0x0D)
      else if e = CHR ''t'' then Some (CHR 0x09)
      else None)"

fun hex4 :: "string \<Rightarrow> (nat \<times> string) option" where
  "hex4 (h1 # h2 # h3 # h4 # rest) =
     (case (hex_val h1, hex_val h2, hex_val h3, hex_val h4) of
        (Some a, Some b, Some c, Some d) \<Rightarrow> Some (((a * 16 + b) * 16 + c) * 16 + d, rest)
      | _ \<Rightarrow> None)"
| "hex4 s = None"

lemma hex4_shorter: "hex4 s = Some (n, rest) \<Longrightarrow> length rest < length s"
  by (cases s rule: hex4.cases) (auto split: option.splits)

function scan_string :: "string \<Rightarrow> (string \<times> string) option" where
  "scan_string [] = None"
| "scan_string (c # cs) =
     (if c = CHR 0x22 then Some ([], cs)
      else if c = CHR 0x5C then
        (case cs of
           [] \<Rightarrow> None
         | e # es \<Rightarrow>
             if e = CHR ''u'' then
               (case hex4 es of
                  None \<Rightarrow> None
                | Some (n, rest) \<Rightarrow>
                    if n < 256
                    then (case scan_string rest of
                            None \<Rightarrow> None
                          | Some (s, r) \<Rightarrow> Some (char_of n # s, r))
                    else None)
             else
               (case unescape e of
                  None \<Rightarrow> None
                | Some ch \<Rightarrow>
                    (case scan_string es of
                       None \<Rightarrow> None
                     | Some (s, r) \<Rightarrow> Some (ch # s, r))))
      else if (of_char c :: nat) < 32 then None
      else (case scan_string cs of
              None \<Rightarrow> None
            | Some (s, r) \<Rightarrow> Some (c # s, r)))"
  by pat_completeness auto
termination
  by (relation "measure length") (auto dest: hex4_shorter)

definition is_digit :: "char \<Rightarrow> bool" where
  "is_digit c \<longleftrightarrow> 48 \<le> (of_char c :: nat) \<and> (of_char c :: nat) \<le> 57"

definition nat_of_digits :: "string \<Rightarrow> nat" where
  "nat_of_digits s = foldl (\<lambda>n c. 10 * n + (of_char c - 48)) 0 s"

definition scan_nat :: "string \<Rightarrow> (nat \<times> string) option" where
  "scan_nat s =
     (case s of
        [] \<Rightarrow> None
      | c # cs \<Rightarrow>
          if c = CHR ''0'' then Some (0, cs)
          else if is_digit c
            then Some (nat_of_digits (c # takeWhile is_digit cs), dropWhile is_digit cs)
          else None)"

definition digits_follow :: "string \<Rightarrow> bool" where
  "digits_follow s = (case s of [] \<Rightarrow> False | c # cs \<Rightarrow> is_digit c)"

definition is_float_tail :: "string \<Rightarrow> bool" where
  "is_float_tail s =
     (case s of
        [] \<Rightarrow> False
      | c # cs \<Rightarrow>
          if c = CHR ''.'' then digits_follow cs
          else if c = CHR ''e'' \<or> c = CHR ''E'' then
            (case cs of
               [] \<Rightarrow> False
             | d # ds \<Rightarrow> if d = CHR ''-'' \<or> d = CHR ''+'' then digits_follow ds else is_digit d)
          else False)"

definition scan_number :: "string \<Rightarrow> (json \<times> string) option" where
  "scan_number s =
     (case (case s of
              [] \<Rightarrow> None
            | c # cs \<Rightarrow>
                if c = CHR ''-''
                then map_option (\<lambda>(n, r). (- int n, r)) (scan_nat cs)
                else map_option (\<lambda>(n, r). (int n, r)) (scan_nat s)) of
        None \<Rightarrow> None
      | Some (i, r) \<Rightarrow> if is_float_tail r then None else Some (JInt i, r))"

definition starts_with :: "string \<Rightarrow> string \<Rightarrow> bool" where
  "starts_with p s \<longleftrightarrow> take (length p) s = p"

section \<open>Dictionaries\<close>

type_synonym dict = "(string \<times> json) list"

fun dict_get :: "dict \<Rightarrow> string \<Rightarrow> json option" where
  "dict_get [] k = None"
| "dict_get ((k', v) # d) k = (if k' = k then Some v else dict_get d k)"

fun dict_set :: "dict \<Rightarrow> string \<Rightarrow> json \<Rightarrow> dict" where
  "dict_set [] k v = [(k, v)]"
| "dict_set ((k', v') # d) k v = (if k' = k then (k', v) # d else (k', v') # dict_set d k v)"

definition dict_of_pairs :: "(string \<times> json) list \<Rightarrow> dict" where
  "dict_of_pairs kvs = foldl (\<lambda>d kv. dict_set d (fst kv) (snd kv)) [] kvs"

lemma scan_string_shorter: "scan_string s = Some (t, r) \<Longrightarrow> length r < length s"
proof (induction s arbitrary: t r rule: scan_string.induct)
  case (2 c cs)
  show ?case
  proof (cases "c = CHR 0x22")
    case True
    with "2.prems" show ?thesis by simp
  next
    case nq: False
    show ?thesis
    proof (cases "c = CHR 0x5C")
      case True
      with nq "2.prems" obtain e es where cs: "cs = e # es"
        by (cases cs) auto
      show ?thesis
      proof (cases "e = CHR ''u''")
        case u: True
        with nq True cs "2.prems" obtain n rest t' where
          h: "hex4 es = Some (n, rest)" and n: "n < 256" and r: "scan_string rest = Some (t', r)"
          by (auto split: option.splits if_splits)
        from "2.IH"(1)[OF nq True cs u _ _ n r, of "(n, rest)"] h
        have "length r < length rest" by simp
        with hex4_shorter[OF h] cs show ?thesis by simp
      next
        case nu: False
        with nq True cs "2.prems" obtain ch t' where
          ue: "unescape e = Some ch" and r: "scan_string es = Some (t', r)"
          by (auto split: option.splits)
        from "2.IH"(2)[OF nq True cs nu ue r] cs show ?thesis by simp
      qed
    next
      case False
      with nq "2.prems" obtain t' where r: "scan_string cs = Some (t', r)"
        and nc: "\<not> (of_char c :: nat) < 32"
        by (auto split: option.splits if_splits)
      from "2.IH"(3)[OF nq False nc r] show ?thesis by simp
    qed
  qed
qed simp

lemma scan_number_shorter: "scan_number s = Some (v, r) \<Longrightarrow> length r < length s"
  by (auto simp: scan_number_def scan_nat_def split: list.splits if_splits option.splits
      intro: le_imp_less_Suc length_dropWhile_le le_SucI)

lemma length_skip_ws: "length (skip_ws s) \<le> length s"
  by (simp add: skip_ws_def length_dropWhile_le)

lemma skip_ws_ConsD: "skip_ws s = d # ds \<Longrightarrow> Suc (length ds) \<le> length s"
  using length_skip_ws[of s] by simp

function parse_value :: "string \<Rightarrow> (json \<times> string) option"
  and parse_items :: "string \<Rightarrow> (json list \<times> string) option"
  and parse_members :: "string \<Rightarrow> ((string \<times> json) list \<times> string) option"
where
  "parse_value s =
     (case s of
        [] \<Rightarrow> None
      | c # cs \<Rightarrow>
          if c = CHR 0x22 then
            (case scan_string cs of None \<Rightarrow> None | Some (t, r) \<Rightarrow> Some (JStr t, r))
          else if c = CHR ''{'' then
            (case skip_ws cs of
               [] \<Rightarrow> None
             | d # ds \<Rightarrow>
                 if d = CHR ''}'' then Some (JObj [], ds)
                 else (case parse_members (d # ds) of
                         None \<Rightarrow> None
                       | Some (kvs, r) \<Rightarrow> Some (JObj (dict_of_pairs kvs), r)))
          else if c = CHR ''['' then
            (case skip_ws cs of
               [] \<Rightarrow> None
             | d # ds \<Rightarrow>
                 if d = CHR '']'' then Some (JArr [], ds)
                 else (case parse_items (d # ds) of
                         None \<Rightarrow> None
                       | Some (vs, r) \<Rightarrow> Some (JArr vs, r)))
          else if starts_with ''null'' s then Some (JNull, drop 4 s)
          else if starts_with ''true'' s then Some (JBool True, drop 4 s)
          else if starts_with ''false'' s then Some (JBool False, drop 5 s)
          else scan_number s)"
| "parse_items s =
     (case parse_value s of
        None \<Rightarrow> None
      | Some (v, r) \<Rightarrow>
          if length r < length s then
            (case skip_ws r of
               [] \<Rightarrow> None
             | d # ds \<Rightarrow>
                 if d = CHR '']'' then Some ([v], ds)
                 else if d = CHR '','' then
                   (case parse_items (skip_ws ds) of
                      None \<Rightarrow> None
                    | Some (vs, r') \<Rightarrow> Some (v # vs, r'))
                 else None)
          else None)"
| "parse_members s =
     (case s of
        [] \<Rightarrow> None
      | q # cs \<Rightarrow>
          if q = CHR 0x22 then
            (case scan_string cs of
               None \<Rightarrow> None
             | Some (k, r) \<Rightarrow>
                 (case skip_ws r of
                    [] \<Rightarrow> None
                  | d # ds \<Rightarrow>
                      if d = CHR '':'' then
                        (case parse_value (skip_ws ds) of
                           None \<Rightarrow> None
                         | Some (v, r2) \<Rightarrow>
                             if length r2 < length s then
                               (case skip_ws r2 of
                                  [] \<Rightarrow> None
                                | e # es \<Rightarrow>
                                    if e = CHR ''}'' then Some ([(k, v)], es)
                                    else if e = CHR '','' then
                                      (case parse_members (skip_ws es) of
                                         None \<Rightarrow> None
                                       | Some (kvs, r') \<Rightarrow> Some ((k, v) # kvs, r'))
                                    else None)
                             else None)
                      else None))
          else None)"
  by pat_completeness auto
termination
  apply (relation "measure (\<lambda>x. case x of Inl s \<Rightarrow> 2 * length s
                                | Inr (Inl s) \<Rightarrow> 2 * length s + 1
                                | Inr (Inr s) \<Rightarrow> 2 * length s + 1)")
  apply (auto dest!: skip_ws_ConsD scan_string_shorter)[7]
  subgoal for s a b x using length_skip_ws[of x] by simp
  subgoal for x b y using length_skip_ws[of y] by simp
  subgoal for x b y aa ba z using length_skip_ws[of z] by simp
  done

definition loads :: "string \<Rightarrow> error + json" where
  "loads s =
     (case parse_value (skip_ws s) of
        None \<Rightarrow> Inl JSONDecodeError
      | Some (v, r) \<Rightarrow> if skip_ws r = [] then Inr v else Inl JSONDecodeError)"

section \<open>Reading back what \<open>json.dumps\<close> wrote\<close>

declare str_nat.simps [simp del]
declare parse_value.simps [simp del] parse_items.simps [simp del] parse_members.simps [simp del]

lemma lt10:
  "k < 10 \<Longrightarrow> k = 0 \<or> k = 1 \<or> k = 2 \<or> k = 3 \<or> k = 4 \<or> k = 5 \<or> k = 6 \<or> k = 7 \<or> k = 8 \<or> k = (9::nat)"
  by arith

lemma lt16:
  "k < 16 \<Longrightarrow> k = 0 \<or> k = 1 \<or> k = 2 \<or> k = 3 \<or> k = 4 \<or> k = 5 \<or> k = 6 \<or> k = 7 \<or> k = 8 \<or> k = (9::nat)
     \<or> k = 10 \<or> k = 11 \<or> k = 12 \<or> k = 13 \<or> k = 14 \<or> k = 15"
  by arith

lemma of_char_digit_char: "k < 10 \<Longrightarrow> (of_char (digit_char k) :: nat) = 48 + k"
  by (drule lt10) (auto simp: digit_char_def)

lemma hex_val_hex_char: "k < 16 \<Longrightarrow> hex_val (hex_char k) = Some k"
  by (drule lt16) (auto simp: hex_val_def hex_char_def)

lemma of_char_lt_256: "(of_char (c::char) :: nat) < 256"
  by (cases c) (simp add: of_char_Char)

lemma scan_string_esc:
  "scan_string (esc_char c @ t) =
     (case scan_string t of None \<Rightarrow> None | Some (s, r) \<Rightarrow> Some (c # s, r))"
proof -
  let ?n = "of_char c :: nat"
  consider (special) "c \<in> {CHR 0x22, CHR 0x5C, CHR 0x0A, CHR 0x0D, CHR 0x09, CHR 0x08, CHR 0x0C}"
    | (ctl) "c \<notin> {CHR 0x22, CHR 0x5C, CHR 0x0A, CHR 0x0D, CHR 0x09, CHR 0x08, CHR 0x0C}" "?n < 32"
    | (plain) "c \<notin> {CHR 0x22, CHR 0x5C, CHR 0x0A, CHR 0x0D, CHR 0x09, CHR 0x08, CHR 0x0C}" "\<not> ?n < 32"
    by blast
  then show ?thesis
  proof cases
    case special
    then show ?thesis
      by (auto simp: esc_char_def unescape_def)
  next
    case ctl
    from ctl(2) have d: "?n div 16 < 16" "?n mod 16 < 16" by simp_all
    have n: "(0 * 16 + 0) * 16 * 16 + (?n div 16) * 16 + ?n mod 16 = ?n" by simp
    have h: "hex4 (CHR ''0'' # CHR ''0'' # hex_char (?n div 16) # hex_char (?n mod 16) # t) = Some (?n, t)"
      using hex_val_hex_char[OF d(1)] hex_val_hex_char[OF d(2)]
      by (simp add: hex_val_def)
    from ctl h show ?thesis
      by (simp add: esc_char_def del: hex4.simps split: option.splits)
  next
    case plain
    then show ?thesis
      by (simp add: esc_char_def)
  qed
qed

lemma scan_string_encoded:
  "scan_string (concat (map esc_char s) @ CHR 0x22 # rest) = Some (s, rest)"
  by (induction s) (simp_all add: scan_string_esc)

lemma encode_str_Cons: "encode_str s = CHR 0x22 # concat (map esc_char s) @ [CHR 0x22]"
  by (simp add: encode_str_def)


lemma str_nat_small: "n < 10 \<Longrightarrow> str_nat n = [digit_char n]"
  by (subst str_nat.simps) simp

lemma str_nat_big: "\<not> n < 10 \<Longrightarrow> str_nat n = str_nat (n div 10) @ [digit_char (n mod 10)]"
  by (subst str_nat.simps) simp

lemma is_digit_digit_char: "k < 10 \<Longrightarrow> is_digit (digit_char k)"
  by (simp add: is_digit_def of_char_digit_char)

lemma digit_val_digit_char: "k < 10 \<Longrightarrow> (of_char (digit_char k) :: nat) - 48 = k"
  by (simp add: of_char_digit_char)

lemma str_nat_digits: "c \<in> set (str_nat n) \<Longrightarrow> is_digit c"
proof (induction n arbitrary: c rule: str_nat.induct)
  case (1 n)
  show ?case
  proof (cases "n < 10")
    case True
    with "1.prems" show ?thesis by (simp add: str_nat_small is_digit_digit_char)
  next
    case False
    with "1.prems" "1.IH" show ?thesis
      by (auto simp: str_nat_big is_digit_digit_char)
  qed
qed

lemma str_nat_not_Nil: "str_nat n \<noteq> []"
  by (subst str_nat.simps) simp

lemma nat_of_digits_snoc:
  "nat_of_digits (xs @ [c]) = 10 * nat_of_digits xs + (of_char c - 48)"
  by (simp add: nat_of_digits_def)

lemma nat_of_digits_str_nat: "nat_of_digits (str_nat n) = n"
proof (induction n rule: str_nat.induct)
  case (1 n)
  show ?case
  proof (cases "n < 10")
    case True
    then show ?thesis by (simp add: str_nat_small nat_of_digits_def digit_val_digit_char)
  next
    case False
    with "1.IH" show ?thesis
      by (simp add: str_nat_big nat_of_digits_snoc digit_val_digit_char)
  qed
qed

lemma digit_char_zero_iff: "k < 10 \<Longrightarrow> digit_char k = CHR ''0'' \<longleftrightarrow> k = 0"
proof -
  assume k: "k < 10"
  have "digit_char k = CHR ''0'' \<longleftrightarrow> (of_char (digit_char k) :: nat) = of_char CHR ''0''"
    by (simp only: of_char_eq_iff)
  also have "\<dots> \<longleftrightarrow> k = 0" using k by (simp add: of_char_digit_char)
  finally show ?thesis .
qed

lemma hd_str_nat_zero: "hd (str_nat n) = CHR ''0'' \<Longrightarrow> n = 0"
proof (induction n rule: str_nat.induct)
  case (1 n)
  show ?case
  proof (cases "n < 10")
    case True
    with "1.prems" show ?thesis by (simp add: str_nat_small digit_char_zero_iff)
  next
    case False
    with "1.prems" have "hd (str_nat (n div 10)) = CHR ''0''"
      by (simp add: str_nat_big str_nat_not_Nil)
    with "1.IH" False have "n div 10 = 0" by simp
    with False show ?thesis by simp
  qed
qed

lemma takeWhile_digits_append:
  "\<forall>c\<in>set xs. is_digit c \<Longrightarrow> \<not> digits_follow rest \<Longrightarrow>
     takeWhile is_digit (xs @ rest) = xs \<and> dropWhile is_digit (xs @ rest) = rest"
  by (induction xs) (auto simp: digits_follow_def split: list.splits)

lemma scan_nat_str_nat:
  assumes "\<not> digits_follow rest"
  shows "scan_nat (str_nat n @ rest) = Some (n, rest)"
proof -
  obtain c cs where s: "str_nat n = c # cs"
    using str_nat_not_Nil[of n] by (cases "str_nat n") auto
  have dig: "\<forall>x\<in>set (c # cs). is_digit x" using str_nat_digits[of _ n] s by auto
  show ?thesis
  proof (cases "c = CHR ''0''")
    case True
    with s hd_str_nat_zero[of n] have "n = 0" by simp
    then have "str_nat n = ''0''" by (simp add: str_nat_small digit_char_def)
    with \<open>n = 0\<close> show ?thesis by (simp add: scan_nat_def)
  next
    case False
    from dig have "\<forall>x\<in>set cs. is_digit x" by simp
    from takeWhile_digits_append[OF this assms]
    have "takeWhile is_digit (cs @ rest) = cs" "dropWhile is_digit (cs @ rest) = rest" by simp_all
    moreover have "nat_of_digits (c # cs) = n" using nat_of_digits_str_nat[of n] s by simp
    ultimately show ?thesis using False dig s by (simp add: scan_nat_def)
  qed
qed

lemma hd_str_int:
  "\<exists>c cs. str_int i = c # cs \<and> (c = CHR ''-'' \<or> is_digit c)"
proof (cases "i < 0")
  case True
  then show ?thesis by (simp add: str_int_def)
next
  case False
  obtain c cs where "str_nat (nat i) = c # cs"
    using str_nat_not_Nil[of "nat i"] by (cases "str_nat (nat i)") auto
  moreover from this have "is_digit c" using str_nat_digits[of c "nat i"] by simp
  ultimately show ?thesis using False by (simp add: str_int_def)
qed

lemma scan_number_str_int:
  assumes "\<not> digits_follow rest" "\<not> is_float_tail rest"
  shows "scan_number (str_int i @ rest) = Some (JInt i, rest)"
proof (cases "i < 0")
  case True
  with scan_nat_str_nat[OF assms(1), of "nat (- i)"] assms(2) show ?thesis
    by (simp add: scan_number_def str_int_def)
next
  case False
  obtain c cs where s: "str_nat (nat i) = c # cs"
    using str_nat_not_Nil[of "nat i"] by (cases "str_nat (nat i)") auto
  then have "is_digit c" using str_nat_digits[of c "nat i"] by simp
  then have "c \<noteq> CHR ''-''" by (auto simp: is_digit_def)
  with scan_nat_str_nat[OF assms(1), of "nat i"] assms(2) s False show ?thesis
    by (simp add: scan_number_def str_int_def)
qed

fun wf_json :: "json \<Rightarrow> bool"
  and wf_items :: "json list \<Rightarrow> bool"
  and wf_members :: "(string \<times> json) list \<Rightarrow> bool"
where
  "wf_json (JArr xs) = wf_items xs"
| "wf_json (JObj kvs) = (distinct (map fst kvs) \<and> wf_members kvs)"
| "wf_json v = True"
| "wf_items [] = True"
| "wf_items (x # xs) = (wf_json x \<and> wf_items xs)"
| "wf_members [] = True"
| "wf_members (kv # kvs) = (wf_json (snd kv) \<and> wf_members kvs)"

definition first_ok :: "char \<Rightarrow> bool" where
  "first_ok c \<longleftrightarrow> \<not> is_ws c \<and> c \<noteq> CHR '']'' \<and> c \<noteq> CHR ''}''"

definition follow_ok :: "string \<Rightarrow> bool" where
  "follow_ok rest \<longleftrightarrow> \<not> digits_follow rest \<and> \<not> is_float_tail rest"

lemma follow_ok_simps [simp]:
  "follow_ok []" "follow_ok (CHR '','' # t)" "follow_ok (newline_indent m @ t)"
  by (simp_all add: follow_ok_def digits_follow_def is_float_tail_def is_digit_def
      newline_indent_def)

lemma skip_ws_newline_indent [simp]: "skip_ws (newline_indent l @ t) = skip_ws t"
proof -
  have "dropWhile is_ws (replicate n CHR '' '' @ t) = dropWhile is_ws t" for n
    by (induction n) (simp_all add: is_ws_def)
  then show ?thesis by (simp add: skip_ws_def newline_indent_def is_ws_def)
qed

lemma skip_ws_Nil [simp]: "skip_ws [] = []"
  by (simp add: skip_ws_def)

lemma skip_ws_nonws: "\<not> is_ws c \<Longrightarrow> skip_ws (c # t) = c # t"
  by (simp add: skip_ws_def)

lemma skip_ws_first_ok [simp]: "first_ok c \<Longrightarrow> skip_ws (c # t) = c # t"
  by (simp add: skip_ws_def first_ok_def)

lemma first_ok_digit: "is_digit c \<Longrightarrow> first_ok c"
  by (auto simp: first_ok_def is_digit_def is_ws_def)

lemma dumps_at_first: "\<exists>c t. dumps_at l v = c # t \<and> first_ok c"
proof (cases v)
  case (JInt i)
  from hd_str_int[of i] obtain c cs where "str_int i = c # cs" "c = CHR ''-'' \<or> is_digit c"
    by blast
  moreover from this(2) have "first_ok c"
    by (auto simp: first_ok_digit) (simp add: first_ok_def is_ws_def)
  ultimately show ?thesis using JInt by simp
qed (auto simp: first_ok_def is_ws_def encode_str_def)

lemma dumps_items_first: "xs \<noteq> [] \<Longrightarrow> \<exists>c t. dumps_items l xs = c # t \<and> first_ok c"
proof (cases xs)
  case (Cons x ys)
  from dumps_at_first[of l x] obtain c t where "dumps_at l x = c # t" "first_ok c" by blast
  with Cons show ?thesis by simp
qed simp

lemma dumps_members_first:
  "kvs \<noteq> [] \<Longrightarrow> \<exists>t. dumps_members l kvs = CHR 0x22 # t"
  by (cases kvs) (simp_all add: encode_str_def)

lemma parse_value_string:
  "parse_value (encode_str s @ rest) = Some (JStr s, rest)"
  by (simp add: parse_value.simps encode_str_def scan_string_encoded)

lemma parse_value_number:
  assumes "follow_ok rest"
  shows "parse_value (str_int i @ rest) = Some (JInt i, rest)"
proof -
  from hd_str_int[of i] obtain c cs where s: "str_int i = c # cs" and c: "c = CHR ''-'' \<or> is_digit c"
    by blast
  from c have "c \<noteq> CHR 0x22" "c \<noteq> CHR ''{''" "c \<noteq> CHR ''[''" "c \<noteq> CHR ''n''"
    "c \<noteq> CHR ''t''" "c \<noteq> CHR ''f''"
    by (auto simp: is_digit_def)
  moreover have "scan_number (c # cs @ rest) = Some (JInt i, rest)"
    using scan_number_str_int[of rest i] assms s by (simp add: follow_ok_def)
  ultimately show ?thesis using s
    by (simp add: parse_value.simps starts_with_def)
qed

lemma parse_value_array:
  assumes "xs \<noteq> []"
    and "parse_items (dumps_items (Suc l) xs @ newline_indent l @ CHR '']'' # rest) = Some (xs, rest)"
  shows "parse_value (dumps_at l (JArr xs) @ rest) = Some (JArr xs, rest)"
proof -
  from dumps_items_first[OF assms(1), of "Suc l"] obtain c t where
    d: "dumps_items (Suc l) xs = c # t" and c: "first_ok c" by blast
  from c have "c \<noteq> CHR '']''" by (simp add: first_ok_def)
  with assms d c show ?thesis
    by (simp add: parse_value.simps)
qed

lemma dict_set_fresh: "k \<notin> fst ` set d \<Longrightarrow> dict_set d k v = d @ [(k, v)]"
  by (induction d) auto

lemma dict_of_pairs_distinct: "distinct (map fst kvs) \<Longrightarrow> dict_of_pairs kvs = kvs"
proof -
  have "distinct (map fst (d @ kvs)) \<Longrightarrow>
        foldl (\<lambda>d kv. dict_set d (fst kv) (snd kv)) d kvs = d @ kvs" for d
  proof (induction kvs arbitrary: d)
    case (Cons kv kvs)
    from Cons.prems have "fst kv \<notin> fst ` set d" by auto
    then have "dict_set d (fst kv) (snd kv) = d @ [kv]" by (simp add: dict_set_fresh)
    moreover from Cons.prems have "distinct (map fst ((d @ [kv]) @ kvs))" by simp
    ultimately show ?case using Cons.IH[of "d @ [kv]"] by simp
  qed simp
  from this[of "[]"] show "distinct (map fst kvs) \<Longrightarrow> dict_of_pairs kvs = kvs"
    by (simp add: dict_of_pairs_def)
qed

lemma parse_value_object:
  assumes "kvs \<noteq> []" "distinct (map fst kvs)"
    and "parse_members (dumps_members (Suc l) kvs @ newline_indent l @ CHR ''}'' # rest) = Some (kvs, rest)"
  shows "parse_value (dumps_at l (JObj kvs) @ rest) = Some (JObj kvs, rest)"
proof -
  from dumps_members_first[OF assms(1), of "Suc l"] obtain t where
    d: "dumps_members (Suc l) kvs = CHR 0x22 # t" by blast
  have "first_ok (CHR 0x22)" by (simp add: first_ok_def is_ws_def)
  with assms d show ?thesis
    by (simp add: parse_value.simps dict_of_pairs_distinct)
qed

lemma parse_items_step:
  assumes v: "\<And>rest. follow_ok rest \<Longrightarrow> parse_value (dumps_at l x @ rest) = Some (x, rest)"
    and rec: "xs \<noteq> [] \<Longrightarrow>
       parse_items (dumps_items l xs @ newline_indent m @ CHR '']'' # rest) = Some (xs, rest)"
  shows "parse_items (dumps_items l (x # xs) @ newline_indent m @ CHR '']'' # rest)
           = Some (x # xs, rest)"
proof -
  from dumps_at_first[of l x] obtain c t where dx: "dumps_at l x = c # t" by blast
  show ?thesis
  proof (cases "xs = []")
    case True
    let ?r = "newline_indent m @ CHR '']'' # rest"
    have pv: "parse_value (dumps_at l x @ ?r) = Some (x, ?r)" by (rule v) simp
    have "skip_ws ?r = CHR '']'' # rest"
      by (simp add: skip_ws_nonws is_ws_def)
    moreover have "length ?r < length (dumps_at l x @ ?r)" using dx by simp
    ultimately show ?thesis using pv True
      by (subst parse_items.simps) simp
  next
    case False
    let ?tail = "dumps_items l xs @ newline_indent m @ CHR '']'' # rest"
    let ?r = "CHR '','' # newline_indent l @ ?tail"
    have pv: "parse_value (dumps_at l x @ ?r) = Some (x, ?r)" by (rule v) simp
    from dumps_items_first[OF False, of l] obtain c' t' where
      d: "dumps_items l xs = c' # t'" and c': "first_ok c'" by blast
    have sk: "skip_ws ?r = ?r" by (simp add: skip_ws_def is_ws_def)
    have sk2: "skip_ws (newline_indent l @ ?tail) = ?tail" using d c' by simp
    have "length ?r < length (dumps_at l x @ ?r)" using dx by simp
    with rec[OF False] pv sk sk2 False show ?thesis
      by (subst parse_items.simps) simp
  qed
qed

lemma parse_members_step:
  assumes v: "\<And>rest. follow_ok rest \<Longrightarrow> parse_value (dumps_at l x @ rest) = Some (x, rest)"
    and rec: "kvs \<noteq> [] \<Longrightarrow>
       parse_members (dumps_members l kvs @ newline_indent m @ CHR ''}'' # rest) = Some (kvs, rest)"
  shows "parse_members (dumps_members l ((k, x) # kvs) @ newline_indent m @ CHR ''}'' # rest)
           = Some ((k, x) # kvs, rest)"
proof -
  from dumps_at_first[of l x] obtain c t where dx: "dumps_at l x = c # t" and c: "first_ok c"
    by blast
  have colon: "skip_ws (CHR '':'' # u) = CHR '':'' # u" for u
    by (simp add: skip_ws_def is_ws_def)
  have space: "skip_ws (CHR '' '' # c # u) = c # u" for u
    using c by (simp add: skip_ws_def is_ws_def first_ok_def)
  show ?thesis
  proof (cases "kvs = []")
    case True
    let ?r = "newline_indent m @ CHR ''}'' # rest"
    let ?s = "encode_str k @ '': '' @ dumps_at l x @ ?r"
    have pv: "parse_value (dumps_at l x @ ?r) = Some (x, ?r)" by (rule v) simp
    have sk: "skip_ws ?r = CHR ''}'' # rest"
      by (simp add: skip_ws_nonws is_ws_def)
    have sp: "skip_ws (CHR '' '' # dumps_at l x @ ?r) = dumps_at l x @ ?r"
      using space dx by simp
    have "length ?r < length ?s" using dx by simp
    then have "parse_members ?s = Some ([(k, x)], rest)"
      using pv sk colon sp
      by (subst parse_members.simps) (simp add: encode_str_def scan_string_encoded)
    with True show ?thesis by simp
  next
    case False
    let ?tail = "dumps_members l kvs @ newline_indent m @ CHR ''}'' # rest"
    let ?r = "CHR '','' # newline_indent l @ ?tail"
    let ?s = "encode_str k @ '': '' @ dumps_at l x @ ?r"
    have pv: "parse_value (dumps_at l x @ ?r) = Some (x, ?r)" by (rule v) simp
    from dumps_members_first[OF False, of l] obtain t' where
      d: "dumps_members l kvs = CHR 0x22 # t'" by blast
    have sk: "skip_ws ?r = ?r" by (simp add: skip_ws_def is_ws_def)
    have "first_ok (CHR 0x22)" by (simp add: first_ok_def is_ws_def)
    then have sk2: "skip_ws (newline_indent l @ ?tail) = ?tail" using d by simp
    have sp: "skip_ws (CHR '' '' # dumps_at l x @ ?r) = dumps_at l x @ ?r"
      using space dx by simp
    have "length ?r < length ?s" using dx by simp
    then have "parse_members ?s = Some ((k, x) # kvs, rest)"
      using rec[OF False] pv sk sk2 colon sp
      by (subst parse_members.simps) (simp add: encode_str_def scan_string_encoded)
    with False show ?thesis by simp
  qed
qed

lemma parse_dumps:
  "wf_json v \<longrightarrow> (\<forall>rest. follow_ok rest \<longrightarrow> parse_value (dumps_at l v @ rest) = Some (v, rest))"
  "xs \<noteq> [] \<longrightarrow> wf_items xs \<longrightarrow>
     (\<forall>m rest. parse_items (dumps_items l xs @ newline_indent m @ CHR '']'' # rest) = Some (xs, rest))"
  "kvs \<noteq> [] \<longrightarrow> wf_members kvs \<longrightarrow>
     (\<forall>m rest. parse_members (dumps_members l kvs @ newline_indent m @ CHR ''}'' # rest)
        = Some (kvs, rest))"
proof (induction l v and l xs and l kvs rule: dumps_at_dumps_items_dumps_members.induct)
  case (1 l)
  show ?case by (simp add: parse_value.simps starts_with_def)
next
  case (2 l b)
  show ?case by (simp add: parse_value.simps starts_with_def)
next
  case (3 l i)
  show ?case by (simp add: parse_value_number)
next
  case (4 l s)
  show ?case by (simp add: parse_value_string)
next
  case (5 l xs)
  show ?case
  proof (cases "xs = []")
    case True
    then show ?thesis by (simp add: parse_value.simps skip_ws_def is_ws_def)
  next
    case False
    show ?thesis
    proof (intro impI allI)
      fix rest
      assume "wf_json (JArr xs)"
      with 5 False show "parse_value (dumps_at l (JArr xs) @ rest) = Some (JArr xs, rest)"
        by (intro parse_value_array) simp_all
    qed
  qed
next
  case (6 l kvs)
  show ?case
  proof (cases "kvs = []")
    case True
    then show ?thesis by (simp add: parse_value.simps skip_ws_def is_ws_def)
  next
    case False
    show ?thesis
    proof (intro impI allI)
      fix rest
      assume "wf_json (JObj kvs)"
      with 6 False show "parse_value (dumps_at l (JObj kvs) @ rest) = Some (JObj kvs, rest)"
        by (intro parse_value_object) simp_all
    qed
  qed
next
  case (7 l)
  show ?case by simp
next
  case (8 l x xs)
  show ?case
  proof (intro impI allI)
    fix m rest
    assume "wf_items (x # xs)"
    then have wx: "wf_json x" and wxs: "wf_items xs" by simp_all
    show "parse_items (dumps_items l (x # xs) @ newline_indent m @ CHR '']'' # rest) = Some (x # xs, rest)"
    proof (rule parse_items_step)
      fix r assume "follow_ok r"
      with "8.IH"(1) wx show "parse_value (dumps_at l x @ r) = Some (x, r)" by simp
    next
      assume "xs \<noteq> []"
      with "8.IH"(2) wxs
      show "parse_items (dumps_items l xs @ newline_indent m @ CHR '']'' # rest) = Some (xs, rest)"
        by simp
    qed
  qed
next
  case (9 l)
  show ?case by simp
next
  case (10 l kv kvs)
  show ?case
  proof (intro impI allI)
    fix m rest
    assume "wf_members (kv # kvs)"
    then have wx: "wf_json (snd kv)" and wxs: "wf_members kvs" by simp_all
    have "parse_members (dumps_members l ((fst kv, snd kv) # kvs) @ newline_indent m @ CHR ''}'' # rest)
            = Some ((fst kv, snd kv) # kvs, rest)"
    proof (rule parse_members_step)
      fix r assume "follow_ok r"
      with "10.IH"(1) wx show "parse_value (dumps_at l (snd kv) @ r) = Some (snd kv, r)" by simp
    next
      assume "kvs \<noteq> []"
      with "10.IH"(2) wxs
      show "parse_members (dumps_members l kvs @ newline_indent m @ CHR ''}'' # rest) = Some (kvs, rest)"
        by simp
    qed
    then show "parse_members (dumps_members l (kv # kvs) @ newline_indent m @ CHR ''}'' # rest)
            = Some (kv # kvs, rest)" by simp
  qed
qed

lemma loads_dumps: "wf_json v \<Longrightarrow> loads (dumps v) = Inr v"
proof -
  assume w: "wf_json v"
  from dumps_at_first[of 0 v] obtain c t where d: "dumps_at 0 v = c # t" and c: "first_ok c"
    by blast
  have "follow_ok []" by simp
  from parse_dumps(1)[of v 0, rule_format, OF w this]
  have "parse_value (dumps_at 0 v) = Some (v, [])" by simp
  with d c show ?thesis by (simp add: loads_def dumps_def)
qed

section \<open>Files and \<open>write_json\<close>\<close>

text \<open>
  A path is the list of its components; the file system maps a path to the text of the
  file. \<open>write_json\<close> writes the filtered serialisation of the document.
\<close>

type_synonym path = "string list"
type_synonym files = "path \<Rightarrow> string option"

definition write_json :: "path \<Rightarrow> json \<Rightarrow> files \<Rightarrow> files" where
  "write_json p obj fs = fs(p \<mapsto> write_json_text obj)"

definition tag_at :: "string \<Rightarrow> string \<Rightarrow> string \<Rightarrow> string \<Rightarrow> bool" where
  "tag_at s pre body post \<longleftrightarrow>
     s = pre @ CHR ''<'' # body @ CHR ''>'' # post \<and> body \<noteq> [] \<and> CHR ''>'' \<notin> set body"

text \<open>
  Claim C10. Whatever document \<open>write_json\<close> is given, the file it writes holds
  no match of the pattern \<open><[^>]+>\<close>: no position of the text has a \<open><\<close>,
  then one or more characters other than \<open>>\<close>, then a \<open>>\<close>. When the
  serialisation \<open>dumps obj\<close> has such a match, the file is the serialisation with
  the matches removed by one pass of \<open>re.sub\<close> over the whole text, and it is
  strictly shorter in UTF-8 bytes than the serialisation whose size the splitter measured;
  when there is none the file is the serialisation itself. No other file changes. The
  witness shows a match that starts in one string value and ends in another: the
  structure between them is removed with it, and the file no longer parses.
\<close>

theorem write_json_no_tag_remains:
  "write_json p obj fs p = Some (write_json_text obj)
   \<and> (\<forall>q. q \<noteq> p \<longrightarrow> write_json p obj fs q = fs q)
   \<and> \<not> (\<exists>pre body post. tag_at (write_json_text obj) pre body post)
   \<and> ((\<exists>pre body post. tag_at (dumps obj) pre body post) \<longrightarrow>
        write_json_text obj = strip_tags (dumps obj)
        \<and> utf8_len (write_json_text obj) < utf8_len (dumps obj))
   \<and> (\<not> (\<exists>pre body post. tag_at (dumps obj) pre body post) \<longrightarrow>
        write_json_text obj = dumps obj)"
proof -
  have iff: "has_tag s \<longleftrightarrow> (\<exists>pre body post. tag_at s pre body post)" for s
    unfolding tag_at_def by (rule has_tag_iff)
  have 1: "\<not> has_tag (write_json_text obj)"
    by (simp add: write_json_text_def Let_def no_tag_strip_tags)
  have 2: "has_tag (dumps obj) \<Longrightarrow> write_json_text obj = strip_tags (dumps obj)
      \<and> utf8_len (write_json_text obj) < utf8_len (dumps obj)"
    by (simp add: write_json_text_def Let_def utf8_len_strip_less)
  have 3: "\<not> has_tag (dumps obj) \<Longrightarrow> write_json_text obj = dumps obj"
    by (simp add: write_json_text_def Let_def)
  have 4: "write_json p obj fs p = Some (write_json_text obj)"
    by (simp add: write_json_def)
  have 5: "\<forall>q. q \<noteq> p \<longrightarrow> write_json p obj fs q = fs q"
    by (simp add: write_json_def)
  from 1 2 3 4 5 show ?thesis
    unfolding iff[symmetric] by blast
qed

definition doc_w :: json where
  "doc_w = JObj [(''title'', JStr ''a <b''), (''tags'', JArr [JStr ''c> d''])]"

lemma dumps_doc_w:
  "dumps doc_w = ''{'' @ [CHR 0x0A] @ ''  '' @ [CHR 0x22] @ ''title'' @ [CHR 0x22] @ '': '' @ [CHR 0x22] @ ''a <b'' @ [CHR 0x22] @ '','' @ [CHR 0x0A]
     @ ''  '' @ [CHR 0x22] @ ''tags'' @ [CHR 0x22] @ '': ['' @ [CHR 0x0A] @ ''    '' @ [CHR 0x22] @ ''c> d'' @ [CHR 0x22] @ [CHR 0x0A] @ ''  ]'' @ [CHR 0x0A] @ ''}''"
  by code_simp

lemma text_doc_w:
  "write_json_text doc_w = ''{'' @ [CHR 0x0A] @ ''  '' @ [CHR 0x22] @ ''title'' @ [CHR 0x22] @ '': '' @ [CHR 0x22] @ ''a  d'' @ [CHR 0x22] @ [CHR 0x0A] @ ''  ]'' @ [CHR 0x0A] @ ''}''"
  by code_simp

theorem write_json_no_tag_remains_witness:
  "tag_at (dumps doc_w)
      (''{'' @ [CHR 0x0A] @ ''  '' @ [CHR 0x22] @ ''title'' @ [CHR 0x22] @ '': '' @ [CHR 0x22] @ ''a '')
      (''b'' @ [CHR 0x22] @ '','' @ [CHR 0x0A] @ ''  '' @ [CHR 0x22] @ ''tags'' @ [CHR 0x22] @ '': ['' @ [CHR 0x0A] @ ''    '' @ [CHR 0x22] @ ''c'')
      ('' d'' @ [CHR 0x22] @ [CHR 0x0A] @ ''  ]'' @ [CHR 0x0A] @ ''}'')
   \<and> write_json [''clean'', ''meta'', ''w.json''] doc_w Map.empty [''clean'', ''meta'', ''w.json'']
       = Some (''{'' @ [CHR 0x0A] @ ''  '' @ [CHR 0x22] @ ''title'' @ [CHR 0x22] @ '': '' @ [CHR 0x22] @ ''a  d'' @ [CHR 0x22] @ [CHR 0x0A] @ ''  ]'' @ [CHR 0x0A] @ ''}'')
   \<and> utf8_len (write_json_text doc_w) < utf8_len (dumps doc_w)
   \<and> loads (write_json_text doc_w) = Inl JSONDecodeError"
proof -
  let ?pre = "''{'' @ [CHR 0x0A] @ ''  '' @ [CHR 0x22] @ ''title'' @ [CHR 0x22] @ '': '' @ [CHR 0x22] @ ''a ''"
  let ?body = "''b'' @ [CHR 0x22] @ '','' @ [CHR 0x0A] @ ''  '' @ [CHR 0x22] @ ''tags'' @ [CHR 0x22] @ '': ['' @ [CHR 0x0A] @ ''    '' @ [CHR 0x22] @ ''c''"
  let ?post = "'' d'' @ [CHR 0x22] @ [CHR 0x0A] @ ''  ]'' @ [CHR 0x0A] @ ''}''"
  have t: "tag_at (dumps doc_w) ?pre ?body ?post"
    unfolding tag_at_def dumps_doc_w by simp
  then have ex: "\<exists>pre body post. tag_at (dumps doc_w) pre body post" by blast
  have l: "loads (write_json_text doc_w) = Inl JSONDecodeError"
    by code_simp
  note main = write_json_no_tag_remains[of "[''clean'', ''meta'', ''w.json'']" doc_w Map.empty]
  from main ex have less: "utf8_len (write_json_text doc_w) < utf8_len (dumps doc_w)"
    by blast
  from main have "write_json [''clean'', ''meta'', ''w.json''] doc_w Map.empty
      [''clean'', ''meta'', ''w.json''] = Some (write_json_text doc_w)"
    by blast
  then have w: "write_json [''clean'', ''meta'', ''w.json''] doc_w Map.empty
      [''clean'', ''meta'', ''w.json'']
       = Some (''{'' @ [CHR 0x0A] @ ''  '' @ [CHR 0x22] @ ''title'' @ [CHR 0x22] @ '': '' @ [CHR 0x22] @ ''a  d'' @ [CHR 0x22] @ [CHR 0x0A] @ ''  ]'' @ [CHR 0x0A] @ ''}'')"
    by (simp only: text_doc_w)
  from t w less l show ?thesis by blast
qed

section \<open>\<open>split_if_large\<close>\<close>

definition KB_LIMIT :: nat where
  "KB_LIMIT = 120 * 1024"

definition OUT_ROOT :: path where
  "OUT_ROOT = [''clean'']"

definition path_name :: "path \<Rightarrow> string" where
  "path_name p = (if p = [] then [] else last p)"

definition rfind_dot :: "string \<Rightarrow> nat option" where
  "rfind_dot name =
     (let k = length (takeWhile (\<lambda>c. c \<noteq> CHR ''.'') (rev name))
      in if k = length name then None else Some (length name - 1 - k))"

definition path_stem :: "path \<Rightarrow> string" where
  "path_stem p =
     (let name = path_name p in
      case rfind_dot name of
        None \<Rightarrow> name
      | Some i \<Rightarrow> if 0 < i \<and> i < length name - 1 then take i name else name)"

fun truthy :: "json \<Rightarrow> bool" where
  "truthy JNull = False"
| "truthy (JBool b) = b"
| "truthy (JInt i) = (i \<noteq> 0)"
| "truthy (JStr s) = (s \<noteq> [])"
| "truthy (JArr xs) = (xs \<noteq> [])"
| "truthy (JObj kvs) = (kvs \<noteq> [])"

definition get_endpoints :: "dict \<Rightarrow> json" where
  "get_endpoints base_obj =
     (case dict_get base_obj ''endpoints'' of
        None \<Rightarrow> JArr []
      | Some v \<Rightarrow> if truthy v then v else JArr [])"

fun iter_items :: "json \<Rightarrow> error + json list" where
  "iter_items (JArr xs) = Inr xs"
| "iter_items (JStr s) = Inr (map (\<lambda>c. JStr [c]) s)"
| "iter_items (JObj kvs) = Inr (map (\<lambda>kv. JStr (fst kv)) kvs)"
| "iter_items v = Inl TypeError"

definition size_of_eps :: "dict \<Rightarrow> json list \<Rightarrow> nat" where
  "size_of_eps base_obj eps = utf8_len (dumps (JObj (dict_set base_obj ''endpoints'' (JArr eps))))"

definition loop_step :: "dict \<Rightarrow> json list list \<times> json list \<Rightarrow> json \<Rightarrow> json list list \<times> json list" where
  "loop_step base_obj st ep =
     (case st of (parts, chunk) \<Rightarrow>
        if size_of_eps base_obj (chunk @ [ep]) > KB_LIMIT \<and> chunk \<noteq> []
        then (parts @ [chunk], [ep])
        else (parts, chunk @ [ep]))"

definition split_endpoints :: "dict \<Rightarrow> json list \<Rightarrow> json list list" where
  "split_endpoints base_obj endpoints =
     (case foldl (loop_step base_obj) ([], []) endpoints of
        (parts, chunk) \<Rightarrow> if chunk \<noteq> [] then parts @ [chunk] else parts)"

definition part_name :: "string \<Rightarrow> nat \<Rightarrow> string" where
  "part_name stem idx = stem @ ''.part'' @ str_nat idx @ ''.json''"

definition part_path :: "string \<Rightarrow> path" where
  "part_path name = OUT_ROOT @ [''resources'', name]"

fun write_parts :: "string \<Rightarrow> dict \<Rightarrow> nat \<Rightarrow> json list list \<Rightarrow> files \<Rightarrow> string list \<times> files" where
  "write_parts stem base_obj idx [] fs = ([], fs)"
| "write_parts stem base_obj idx (eps # rest) fs =
     (let obj = dict_set (dict_set base_obj ''endpoints'' (JArr eps)) ''parts'' (JArr []);
          name = part_name stem idx;
          fs' = write_json (part_path name) (JObj obj) fs;
          (names, fs'') = write_parts stem base_obj (Suc idx) rest fs'
      in (name # names, fs''))"

fun set_item :: "json \<Rightarrow> string \<Rightarrow> json \<Rightarrow> error + json" where
  "set_item (JObj d) k v = Inr (JObj (dict_set d k v))"
| "set_item obj k v = Inl TypeError"

fun update_parts :: "string list \<Rightarrow> string list \<Rightarrow> files \<Rightarrow> (error + unit) \<times> files" where
  "update_parts filenames [] fs = (Inr (), fs)"
| "update_parts filenames (name # rest) fs =
     (case fs (part_path name) of
        None \<Rightarrow> (Inl FileNotFoundError, fs)
      | Some text \<Rightarrow>
          (case loads text of
             Inl e \<Rightarrow> (Inl e, fs)
           | Inr obj \<Rightarrow>
               (case set_item obj ''parts'' (JArr (map JStr filenames)) of
                  Inl e \<Rightarrow> (Inl e, fs)
                | Inr obj' \<Rightarrow> update_parts filenames rest (write_json (part_path name) obj' fs))))"

definition split_if_large :: "path \<Rightarrow> dict \<Rightarrow> files \<Rightarrow> (error + string list) \<times> files" where
  "split_if_large base_path base_obj fs =
     (let endpoints = get_endpoints base_obj in
      if \<not> truthy endpoints
        then (Inr [path_name base_path], write_json base_path (JObj base_obj) fs)
      else if utf8_len (dumps (JObj base_obj)) \<le> KB_LIMIT
        then (Inr [path_name base_path], write_json base_path (JObj base_obj) fs)
      else
        (case iter_items endpoints of
           Inl e \<Rightarrow> (Inl e, fs)
         | Inr eps \<Rightarrow>
             (let parts = split_endpoints base_obj eps;
                  (filenames, fs1) = write_parts (path_stem base_path) base_obj 1 parts fs
              in case update_parts filenames filenames fs1 of
                   (Inl e, fs2) \<Rightarrow> (Inl e, fs2)
                 | (Inr u, fs2) \<Rightarrow> (Inr filenames, fs2))))"



subsection \<open>The greedy scan\<close>

definition chunk_ok :: "dict \<Rightarrow> json list \<Rightarrow> bool" where
  "chunk_ok b c \<longleftrightarrow> (2 \<le> length c \<longrightarrow> size_of_eps b c \<le> KB_LIMIT)"

lemma loop_step_cases:
  "loop_step b (parts, chunk) e = (parts @ [chunk], [e]) \<and> chunk \<noteq> []
     \<and> size_of_eps b (chunk @ [e]) > KB_LIMIT
   \<or> loop_step b (parts, chunk) e = (parts, chunk @ [e])
     \<and> (chunk = [] \<or> size_of_eps b (chunk @ [e]) \<le> KB_LIMIT)"
  by (auto simp: loop_step_def)

lemma loop_inv:
  "foldl (loop_step b) (parts, chunk) eps = (parts', chunk') \<Longrightarrow>
     concat parts' @ chunk' = concat parts @ chunk @ eps
     \<and> ((\<forall>c\<in>set parts. c \<noteq> []) \<longrightarrow> (\<forall>c\<in>set parts'. c \<noteq> []))
     \<and> ((\<forall>c\<in>set parts. chunk_ok b c) \<and> chunk_ok b chunk \<longrightarrow>
          (\<forall>c\<in>set parts'. chunk_ok b c) \<and> chunk_ok b chunk')
     \<and> (eps \<noteq> [] \<or> chunk \<noteq> [] \<longrightarrow> chunk' \<noteq> [])"
proof (induction eps arbitrary: parts chunk)
  case Nil
  then show ?case by simp
next
  case (Cons e eps)
  let ?st = "loop_step b (parts, chunk) e"
  obtain p1 c1 where st: "?st = (p1, c1)" by (cases ?st)
  from Cons.prems have "foldl (loop_step b) ?st eps = (parts', chunk')" by simp
  then have f: "foldl (loop_step b) (p1, c1) eps = (parts', chunk')" unfolding st .
  note IH = Cons.IH[OF f]
  from IH have i1: "concat parts' @ chunk' = concat p1 @ c1 @ eps" by (rule conjunct1)
  from IH have i2: "(\<forall>c\<in>set p1. c \<noteq> []) \<longrightarrow> (\<forall>c\<in>set parts'. c \<noteq> [])"
    by (rule conjunct2[THEN conjunct1])
  from IH have i3: "(\<forall>c\<in>set p1. chunk_ok b c) \<and> chunk_ok b c1 \<longrightarrow>
          (\<forall>c\<in>set parts'. chunk_ok b c) \<and> chunk_ok b chunk'"
    by (rule conjunct2[THEN conjunct2, THEN conjunct1])
  from IH have i4: "eps \<noteq> [] \<or> c1 \<noteq> [] \<longrightarrow> chunk' \<noteq> []"
    by (rule conjunct2[THEN conjunct2, THEN conjunct2])
  from loop_step_cases[of b parts chunk e] st
  consider (close) "p1 = parts @ [chunk]" "c1 = [e]" "chunk \<noteq> []"
    | (keep) "p1 = parts" "c1 = chunk @ [e]" "chunk = [] \<or> size_of_eps b (chunk @ [e]) \<le> KB_LIMIT"
    by auto
  then have facts: "concat p1 @ c1 = concat parts @ chunk @ [e]
      \<and> ((\<forall>c\<in>set parts. c \<noteq> []) \<longrightarrow> (\<forall>c\<in>set p1. c \<noteq> []))
      \<and> ((\<forall>c\<in>set parts. chunk_ok b c) \<and> chunk_ok b chunk \<longrightarrow> (\<forall>c\<in>set p1. chunk_ok b c) \<and> chunk_ok b c1)
      \<and> c1 \<noteq> []"
  proof cases
    case close
    then show ?thesis by (simp add: chunk_ok_def)
  next
    case keep
    then show ?thesis by (auto simp: chunk_ok_def)
  qed
  have "concat parts' @ chunk' = concat parts @ chunk @ e # eps"
    using i1 facts by simp
  moreover have "(\<forall>c\<in>set parts. c \<noteq> []) \<longrightarrow> (\<forall>c\<in>set parts'. c \<noteq> [])"
    using i2 facts by blast
  moreover have "(\<forall>c\<in>set parts. chunk_ok b c) \<and> chunk_ok b chunk \<longrightarrow>
          (\<forall>c\<in>set parts'. chunk_ok b c) \<and> chunk_ok b chunk'"
    using i3 facts by blast
  moreover have "chunk' \<noteq> []" using i4 facts by blast
  ultimately show ?case by blast
qed

lemma split_endpoints_concat: "concat (split_endpoints b eps) = eps"
proof -
  obtain ps c where f: "foldl (loop_step b) ([], []) eps = (ps, c)"
    by (cases "foldl (loop_step b) ([], []) eps")
  from loop_inv[OF f] f show ?thesis
    by (auto simp: split_endpoints_def)
qed

lemma split_endpoints_nonempty: "c \<in> set (split_endpoints b eps) \<Longrightarrow> c \<noteq> []"
proof -
  obtain ps ch where f: "foldl (loop_step b) ([], []) eps = (ps, ch)"
    by (cases "foldl (loop_step b) ([], []) eps")
  from loop_inv[OF f] have "\<forall>c\<in>set ps. c \<noteq> []" by simp
  moreover assume "c \<in> set (split_endpoints b eps)"
  ultimately show ?thesis using f by (auto simp: split_endpoints_def split: if_splits)
qed

lemma split_endpoints_measured:
  "c \<in> set (split_endpoints b eps) \<Longrightarrow> 2 \<le> length c \<Longrightarrow> size_of_eps b c \<le> KB_LIMIT"
proof -
  obtain ps ch where f: "foldl (loop_step b) ([], []) eps = (ps, ch)"
    by (cases "foldl (loop_step b) ([], []) eps")
  from loop_inv[OF f] have
    "(\<forall>c\<in>set ps. chunk_ok b c) \<and> chunk_ok b ch" by (simp add: chunk_ok_def)
  then have
    "(\<forall>c\<in>set ps. 2 \<le> length c \<longrightarrow> size_of_eps b c \<le> KB_LIMIT)
       \<and> (2 \<le> length ch \<longrightarrow> size_of_eps b ch \<le> KB_LIMIT)" by (simp add: chunk_ok_def)
  moreover assume "c \<in> set (split_endpoints b eps)" "2 \<le> length c"
  ultimately show ?thesis using f by (auto simp: split_endpoints_def split: if_splits)
qed

lemma split_endpoints_single: "split_endpoints b [e] = [[e]]"
  by (simp add: split_endpoints_def loop_step_def)

lemma str_nat_inj: "str_nat a = str_nat b \<Longrightarrow> a = b"
  by (metis nat_of_digits_str_nat)

lemma part_name_inj: "part_name stem i = part_name stem j \<Longrightarrow> i = j"
proof -
  assume "part_name stem i = part_name stem j"
  then have "str_nat i = str_nat j"
    by (simp only: part_name_def same_append_eq append_same_eq)
  then show ?thesis by (rule str_nat_inj)
qed

subsection \<open>Texts without angle brackets\<close>

fun lt_free :: "json \<Rightarrow> bool"
  and lt_free_items :: "json list \<Rightarrow> bool"
  and lt_free_members :: "(string \<times> json) list \<Rightarrow> bool"
where
  "lt_free (JStr s) = (CHR ''<'' \<notin> set s)"
| "lt_free (JArr xs) = lt_free_items xs"
| "lt_free (JObj kvs) = lt_free_members kvs"
| "lt_free v = True"
| "lt_free_items [] = True"
| "lt_free_items (x # xs) = (lt_free x \<and> lt_free_items xs)"
| "lt_free_members [] = True"
| "lt_free_members (kv # kvs) = (CHR ''<'' \<notin> set (fst kv) \<and> lt_free (snd kv) \<and> lt_free_members kvs)"

definition plain :: "char \<Rightarrow> bool" where
  "plain c \<longleftrightarrow> 32 \<le> (of_char c :: nat) \<and> (of_char c :: nat) < 128 \<and> c \<noteq> CHR 0x22 \<and> c \<noteq> CHR 0x5C"

definition big :: "nat \<Rightarrow> string" where
  "big n = replicate n CHR ''a''"

lemma has_tag_lt: "has_tag s \<Longrightarrow> CHR ''<'' \<in> set s"
proof (induction s)
  case (Cons c cs)
  show ?case
  proof (cases "match_tag (c # cs)")
    case None
    with Cons show ?thesis by simp
  next
    case (Some rest)
    from match_tag_split[OF Some] show ?thesis by auto
  qed
qed simp

lemma hex_char_not_lt: "k < 16 \<Longrightarrow> hex_char k \<noteq> CHR ''<''"
  by (drule lt16) (auto simp: hex_char_def)

lemma esc_char_lt: "c \<noteq> CHR ''<'' \<Longrightarrow> CHR ''<'' \<notin> set (esc_char c)"
proof -
  assume c: "c \<noteq> CHR ''<''"
  have "(of_char c :: nat) < 32 \<Longrightarrow> (of_char c :: nat) div 16 < 16" by simp
  then have 1: "(of_char c :: nat) < 32 \<Longrightarrow> CHR ''<'' \<noteq> hex_char (of_char c div 16)"
    using hex_char_not_lt[of "of_char c div 16"] by auto
  have "(of_char c :: nat) mod 16 < 16" by simp
  then have 2: "CHR ''<'' \<noteq> hex_char (of_char c mod 16)"
    using hex_char_not_lt[of "of_char c mod 16"] by auto
  show ?thesis using c 1 2
    by (auto simp: esc_char_def)
qed

lemma encode_str_lt: "CHR ''<'' \<notin> set s \<Longrightarrow> CHR ''<'' \<notin> set (encode_str s)"
  by (induction s) (auto simp: encode_str_def esc_char_lt)

lemma str_int_lt: "CHR ''<'' \<notin> set (str_int i)"
proof -
  have "CHR ''<'' \<notin> set (str_nat n)" for n
    using str_nat_digits[of "CHR ''<''" n] by (auto simp: is_digit_def)
  then show ?thesis by (simp add: str_int_def)
qed

lemma newline_indent_lt: "CHR ''<'' \<notin> set (newline_indent l)"
  by (simp add: newline_indent_def)

lemma dumps_lt_free:
  "lt_free v \<longrightarrow> CHR ''<'' \<notin> set (dumps_at l v)"
  "lt_free_items xs \<longrightarrow> CHR ''<'' \<notin> set (dumps_items l xs)"
  "lt_free_members kvs \<longrightarrow> CHR ''<'' \<notin> set (dumps_members l kvs)"
proof (induction l v and l xs and l kvs rule: dumps_at_dumps_items_dumps_members.induct)
  case (3 l i)
  show ?case by (simp add: str_int_lt)
next
  case (4 l s)
  show ?case by (simp add: encode_str_lt)
next
  case (5 l xs)
  then show ?case by (simp add: newline_indent_lt)
next
  case (6 l kvs)
  then show ?case by (simp add: newline_indent_lt)
next
  case (8 l x xs)
  then show ?case by (simp add: newline_indent_lt)
next
  case (10 l kv kvs)
  then show ?case by (simp add: newline_indent_lt encode_str_lt)
qed simp_all

lemma write_json_text_lt_free: "lt_free v \<Longrightarrow> write_json_text v = dumps v"
  using dumps_lt_free(1)[of v 0] has_tag_lt[of "dumps v"]
  by (auto simp: write_json_text_def dumps_def Let_def)

lemma esc_char_plain: "plain c \<Longrightarrow> esc_char c = [c]"
  by (auto simp: plain_def esc_char_def)

lemma encode_str_plain: "\<forall>c\<in>set s. plain c \<Longrightarrow> encode_str s = CHR 0x22 # s @ [CHR 0x22]"
  by (induction s) (simp_all add: encode_str_def esc_char_plain)

lemma utf8_len_plain: "\<forall>c\<in>set s. plain c \<Longrightarrow> utf8_len s = length s"
  by (induction s) (simp_all add: utf8_len_Cons utf8_width_def plain_def)

lemma plain_big: "\<forall>c\<in>set (big n). plain c"
  by (simp add: big_def plain_def)

lemma big_lt: "CHR ''<'' \<notin> set (big n)"
  by (simp add: big_def)

lemma length_big: "length (big n) = n"
  by (simp add: big_def)

lemma utf8_len_encode_big: "utf8_len (encode_str (big n)) = n + 2"
  by (simp add: encode_str_plain plain_big utf8_len_Cons utf8_width_def utf8_len_plain length_big)

lemma utf8_len_newline_indent: "utf8_len (newline_indent l) = 2 * l + 1"
  by (simp add: newline_indent_def utf8_len_Cons utf8_width_def utf8_len_def sum_list_replicate)

lemma utf8_len_encode_plain:
  "\<forall>c\<in>set s. plain c \<Longrightarrow> utf8_len (encode_str s) = length s + 2"
  by (simp add: encode_str_plain utf8_len_Cons utf8_width_def utf8_len_plain)

subsection \<open>A resource document of three endpoints\<close>

definition ep :: "nat \<Rightarrow> json" where
  "ep n = JObj [(''method'', JStr ''GET''), (''path'', JStr ''/contacts''), (''notes'', JStr (big n))]"

definition contacts_doc :: "json list \<Rightarrow> dict" where
  "contacts_doc eps =
     [(''title'', JStr ''Contacts''), (''category'', JStr ''API v2''),
      (''resource'', JStr ''contacts''), (''endpoints'', JArr eps)]"

lemmas size_simps =
  dumps_def utf8_len_Cons utf8_width_def utf8_len_encode_plain plain_big length_big
  utf8_len_newline_indent plain_def utf8_len_encode_big

lemma contacts_doc_set: "dict_set (contacts_doc X) ''endpoints'' (JArr eps) = contacts_doc eps"
  by (simp add: contacts_doc_def)

lemma size_ep: "utf8_len (dumps_at 2 (ep n)) = n + 75"
  by (simp add: ep_def size_simps)

lemma size_contacts_1: "size_of_eps (contacts_doc X) [ep a] = a + 177"
  by (simp add: size_of_eps_def contacts_doc_set) (simp add: contacts_doc_def size_simps size_ep numeral_2_eq_2[symmetric])


lemma size_contacts_2: "size_of_eps (contacts_doc X) [ep a, ep b] = a + b + 258"
  by (simp add: size_of_eps_def contacts_doc_set) (simp add: contacts_doc_def size_simps size_ep numeral_2_eq_2[symmetric])

lemma size_contacts_3: "size_of_eps (contacts_doc X) [ep a, ep b, ep c] = a + b + c + 339"
  by (simp add: size_of_eps_def contacts_doc_set) (simp add: contacts_doc_def size_simps size_ep numeral_2_eq_2[symmetric])

lemma size_contacts_doc: "utf8_len (dumps (JObj (contacts_doc eps))) = size_of_eps (contacts_doc eps) eps"
  by (simp add: size_of_eps_def contacts_doc_set)

definition contacts_path :: path where
  "contacts_path = [''clean'', ''resources'', ''contacts.json'']"

definition contacts_part :: "json list \<Rightarrow> json \<Rightarrow> json" where
  "contacts_part eps ps =
     JObj [(''title'', JStr ''Contacts''), (''category'', JStr ''API v2''),
           (''resource'', JStr ''contacts''), (''endpoints'', JArr eps), (''parts'', ps)]"

lemma contacts_part_eq:
  "JObj (dict_set (dict_set (contacts_doc X) ''endpoints'' (JArr eps)) ''parts'' ps) = contacts_part eps ps"
  by (simp add: contacts_doc_def contacts_part_def)

lemma contacts_part_set:
  "set_item (contacts_part eps ps) ''parts'' ps' = Inr (contacts_part eps ps')"
  by (simp add: contacts_part_def)

lemma lt_free_ep: "lt_free (ep n)"
  by (simp add: ep_def big_lt)

lemma wf_ep: "wf_json (ep n)"
  by (simp add: ep_def)

lemma contacts_stem: "path_stem contacts_path = ''contacts''"
  by (simp add: path_stem_def path_name_def contacts_path_def rfind_dot_def)

lemma contacts_names:
  "part_name ''contacts'' (Suc 0) = ''contacts.part1.json''"
  "part_name ''contacts'' (Suc (Suc 0)) = ''contacts.part2.json''"
  by (simp_all add: part_name_def str_nat_small digit_char_def)

lemma write_contacts_part:
  assumes "lt_free_items eps" "wf_items eps" "lt_free ps" "wf_json ps"
  shows "write_json_text (contacts_part eps ps) = dumps (contacts_part eps ps)"
    and "loads (dumps (contacts_part eps ps)) = Inr (contacts_part eps ps)"
proof -
  from assms have "lt_free (contacts_part eps ps)" by (simp add: contacts_part_def)
  then show "write_json_text (contacts_part eps ps) = dumps (contacts_part eps ps)"
    by (rule write_json_text_lt_free)
  from assms have "wf_json (contacts_part eps ps)" by (simp add: contacts_part_def)
  then show "loads (dumps (contacts_part eps ps)) = Inr (contacts_part eps ps)"
    by (rule loads_dumps)
qed

lemma split_contacts:
  "split_endpoints (contacts_doc X) [ep 61000, ep 61622, ep 100] = [[ep 61000, ep 61622], [ep 100]]"
  by (simp add: split_endpoints_def loop_step_def size_contacts_2 size_contacts_3 KB_LIMIT_def)

lemma size_contacts_part:
  "utf8_len (dumps (contacts_part [ep a, ep b] (JArr [JStr ''contacts.part1.json'', JStr ''contacts.part2.json'']))) = a + b + 329"
  by (simp add: contacts_part_def size_simps size_ep numeral_2_eq_2[symmetric] numeral_3_eq_3[symmetric])


lemma get_endpoints_contacts: "get_endpoints (contacts_doc (e # eps)) = JArr (e # eps)"
  by (simp add: get_endpoints_def contacts_doc_def)

definition contacts_parts_field :: json where
  "contacts_parts_field = JArr [JStr ''contacts.part1.json'', JStr ''contacts.part2.json'']"

lemma parts_field_ok: "lt_free contacts_parts_field" "wf_json contacts_parts_field"
  "lt_free (JArr [])" "wf_json (JArr [])"
  by (simp_all add: contacts_parts_field_def)

lemma eps_ok: "lt_free_items [ep a, ep b]" "wf_items [ep a, ep b]" "lt_free_items [ep c]" "wf_items [ep c]"
  by (simp_all add: lt_free_ep wf_ep)

lemma contacts_run:
  "split_if_large contacts_path (contacts_doc [ep 61000, ep 61622, ep 100]) Map.empty =
     (Inr [''contacts.part1.json'', ''contacts.part2.json''],
      [part_path ''contacts.part1.json'' \<mapsto> dumps (contacts_part [ep 61000, ep 61622] contacts_parts_field),
       part_path ''contacts.part2.json'' \<mapsto> dumps (contacts_part [ep 100] contacts_parts_field)])"
proof -
  let ?D = "contacts_doc [ep 61000, ep 61622, ep 100]"
  let ?n1 = "''contacts.part1.json''" and ?n2 = "''contacts.part2.json''"
  have big: "\<not> utf8_len (dumps (JObj ?D)) \<le> KB_LIMIT"
    by (simp add: size_contacts_doc size_contacts_3 KB_LIMIT_def)
  have ne: "part_path ?n1 \<noteq> part_path ?n2" by (simp add: part_path_def)
  have w1: "write_parts ''contacts'' ?D (Suc 0) [[ep 61000, ep 61622], [ep 100]] Map.empty =
      ([?n1, ?n2],
       [part_path ?n1 \<mapsto> dumps (contacts_part [ep 61000, ep 61622] (JArr [])),
        part_path ?n2 \<mapsto> dumps (contacts_part [ep 100] (JArr []))])"
    by (simp add: contacts_part_eq contacts_names write_json_def Let_def
        write_contacts_part(1)[OF eps_ok(1,2) parts_field_ok(3,4)]
        write_contacts_part(1)[OF eps_ok(3,4) parts_field_ok(3,4)])
  have w2: "update_parts [?n1, ?n2] [?n1, ?n2]
      [part_path ?n1 \<mapsto> dumps (contacts_part [ep 61000, ep 61622] (JArr [])),
       part_path ?n2 \<mapsto> dumps (contacts_part [ep 100] (JArr []))] =
      (Inr (),
       [part_path ?n1 \<mapsto> dumps (contacts_part [ep 61000, ep 61622] contacts_parts_field),
        part_path ?n2 \<mapsto> dumps (contacts_part [ep 100] contacts_parts_field)])"
    using ne
    by (simp add: write_json_def contacts_part_set contacts_parts_field_def[symmetric]
        write_contacts_part(2)[OF eps_ok(1,2) parts_field_ok(3,4)]
        write_contacts_part(2)[OF eps_ok(3,4) parts_field_ok(3,4)]
        write_contacts_part(1)[OF eps_ok(1,2) parts_field_ok(1,2)]
        write_contacts_part(1)[OF eps_ok(3,4) parts_field_ok(1,2)] fun_upd_twist)
  show ?thesis
    unfolding split_if_large_def
    by (simp add: get_endpoints_contacts big split_contacts contacts_stem w1 w2 del: write_parts.simps update_parts.simps)
qed


text \<open>
  Claim C1 (the code's behaviour at a boundary input). The splitter measures a candidate
  part as the document with \<open>endpoints\<close> replaced by the slice; the part it emits also
  carries the \<open>parts\<close> list, which the measurement left out. For the document of three
  endpoints below, the first part holds two endpoints and was measured at exactly
  \<open>KB_LIMIT\<close> = 122880 bytes; the emitted file is that part's serialisation, it reads
  back as the document with the two endpoints and the two part names, and it is 122951
  bytes long: 71 bytes over the budget.
\<close>

theorem two_endpoint_part_exceeds_budget:
  "split_if_large contacts_path (contacts_doc [ep 61000, ep 61622, ep 100]) Map.empty =
     (Inr [''contacts.part1.json'', ''contacts.part2.json''],
      [part_path ''contacts.part1.json'' \<mapsto> dumps (contacts_part [ep 61000, ep 61622] contacts_parts_field),
       part_path ''contacts.part2.json'' \<mapsto> dumps (contacts_part [ep 100] contacts_parts_field)])
   \<and> size_of_eps (contacts_doc [ep 61000, ep 61622, ep 100]) [ep 61000, ep 61622] = KB_LIMIT
   \<and> loads (dumps (contacts_part [ep 61000, ep 61622] contacts_parts_field))
       = Inr (contacts_part [ep 61000, ep 61622] contacts_parts_field)
   \<and> utf8_len (dumps (contacts_part [ep 61000, ep 61622] contacts_parts_field)) = KB_LIMIT + 71"
proof -
  have "utf8_len (dumps (contacts_part [ep 61000, ep 61622] contacts_parts_field)) = KB_LIMIT + 71"
    by (simp add: contacts_parts_field_def size_contacts_part KB_LIMIT_def)
  moreover have "size_of_eps (contacts_doc [ep 61000, ep 61622, ep 100]) [ep 61000, ep 61622] = KB_LIMIT"
    by (simp add: size_contacts_2 KB_LIMIT_def)
  moreover note contacts_run write_contacts_part(2)[OF eps_ok(1,2) parts_field_ok(1,2)]
  ultimately show ?thesis by blast
qed

text \<open>
  What the greedy scan does guarantee: every slice of two or more endpoints was measured,
  without the \<open>parts\<close> field, at or under the budget; slices are never empty and their
  concatenation is the endpoint list.
\<close>

lemma slices_measured_within_budget:
  "concat (split_endpoints b eps) = eps
   \<and> (\<forall>c\<in>set (split_endpoints b eps). c \<noteq> [] \<and> (2 \<le> length c \<longrightarrow> size_of_eps b c \<le> KB_LIMIT))"
  using split_endpoints_concat split_endpoints_nonempty split_endpoints_measured by blast

text \<open>
  Re-splitting the slices as the loop holds them in memory, inside \<open>base_obj\<close> itself,
  gives the same slices: their concatenation is the endpoint list the loop started from.
  This says nothing of the parts that are written: see the re-split of the emitted parts
  further down.
\<close>

lemma resplit_in_memory:
  "split_endpoints base_obj (concat (split_endpoints base_obj eps)) = split_endpoints base_obj eps
   \<and> map length (split_endpoints base_obj (concat (split_endpoints base_obj eps)))
       = map length (split_endpoints base_obj eps)
   \<and> (dict_get base_obj ''endpoints'' = Some (JArr eps) \<longrightarrow>
        split_if_large base_path
          (dict_set base_obj ''endpoints'' (JArr (concat (split_endpoints base_obj eps)))) fs
        = split_if_large base_path base_obj fs)"
proof -
  have "dict_get d k = Some v \<Longrightarrow> dict_set d k v = d" for d :: dict and k v
    by (induction d) auto
  then show ?thesis by (simp add: split_endpoints_concat)
qed

text \<open>
  Both early returns of \<open>split_if_large\<close> make one call of \<open>write_json\<close> on
  \<open>base_obj\<close> and return the one file name. What reaches the file is the writer's
  text, which is the serialisation only when that holds no angle-bracket tag.
\<close>

lemma early_return_calls_write_json:
  assumes "utf8_len (dumps (JObj base_obj)) \<le> KB_LIMIT
           \<or> dict_get base_obj ''endpoints'' = Some (JArr [])"
  shows "split_if_large base_path base_obj fs
           = (Inr [path_name base_path], write_json base_path (JObj base_obj) fs)
         \<and> write_json base_path (JObj base_obj) fs
           = fs(base_path \<mapsto> write_json_text (JObj base_obj))
         \<and> (\<not> has_tag (dumps (JObj base_obj)) \<longrightarrow>
              write_json_text (JObj base_obj) = dumps (JObj base_obj))
         \<and> (\<not> has_tag (dumps (JObj base_obj)) \<and> wf_json (JObj base_obj) \<longrightarrow>
              loads (write_json_text (JObj base_obj)) = Inr (JObj base_obj))"
proof -
  have 1: "split_if_large base_path base_obj fs
           = (Inr [path_name base_path], write_json base_path (JObj base_obj) fs)"
    using assms by (auto simp: split_if_large_def get_endpoints_def Let_def)
  have 2: "write_json base_path (JObj base_obj) fs
           = fs(base_path \<mapsto> write_json_text (JObj base_obj))"
    by (simp add: write_json_def)
  have 3: "\<not> has_tag (dumps (JObj base_obj)) \<Longrightarrow>
              write_json_text (JObj base_obj) = dumps (JObj base_obj)"
    by (simp add: write_json_text_def Let_def)
  have 4: "\<not> has_tag (dumps (JObj base_obj)) \<and> wf_json (JObj base_obj) \<Longrightarrow>
              loads (write_json_text (JObj base_obj)) = Inr (JObj base_obj)"
    using 3 loads_dumps[of "JObj base_obj"] by simp
  from 1 2 3 4 show ?thesis by blast
qed

subsection \<open>A single oversized endpoint whose strings hold angle brackets\<close>

definition bad_ep :: "nat \<Rightarrow> json" where
  "bad_ep n =
     JObj [(''name'', JStr ''Contacts with age < 30''), (''method'', JStr ''GET''),
           (''path'', JStr ''/contacts''),
           (''response_examples'',
              JArr [JObj [(''status'', JInt 200), (''code'', JStr (big n @ '' > 0''))]]),
           (''notes'', JStr ''ok'')]"

definition bad_pre :: string where
  "bad_pre = ''{'' @ [CHR 0x0A] @ ''  '' @ [CHR 0x22] @ ''title'' @ [CHR 0x22] @ '': ''
       @ [CHR 0x22] @ ''Contacts'' @ [CHR 0x22] @ '','' @ [CHR 0x0A] @ ''  ''
       @ [CHR 0x22] @ ''category'' @ [CHR 0x22] @ '': '' @ [CHR 0x22] @ ''API v2''
       @ [CHR 0x22] @ '','' @ [CHR 0x0A] @ ''  '' @ [CHR 0x22] @ ''resource''
       @ [CHR 0x22] @ '': '' @ [CHR 0x22] @ ''contacts'' @ [CHR 0x22] @ '',''
       @ [CHR 0x0A] @ ''  '' @ [CHR 0x22] @ ''endpoints'' @ [CHR 0x22] @ '': [''
       @ [CHR 0x0A] @ ''    {'' @ [CHR 0x0A] @ ''      '' @ [CHR 0x22] @ ''name''
       @ [CHR 0x22] @ '': '' @ [CHR 0x22] @ ''Contacts with age ''"

definition bad_mid :: string where
  "bad_mid = '' 30'' @ [CHR 0x22] @ '','' @ [CHR 0x0A] @ ''      '' @ [CHR 0x22] @ ''method''
       @ [CHR 0x22] @ '': '' @ [CHR 0x22] @ ''GET'' @ [CHR 0x22] @ '','' @ [CHR 0x0A]
       @ ''      '' @ [CHR 0x22] @ ''path'' @ [CHR 0x22] @ '': '' @ [CHR 0x22]
       @ ''/contacts'' @ [CHR 0x22] @ '','' @ [CHR 0x0A] @ ''      '' @ [CHR 0x22]
       @ ''response_examples'' @ [CHR 0x22] @ '': ['' @ [CHR 0x0A] @ ''        {''
       @ [CHR 0x0A] @ ''          '' @ [CHR 0x22] @ ''status'' @ [CHR 0x22] @ '': 200,''
       @ [CHR 0x0A] @ ''          '' @ [CHR 0x22] @ ''code'' @ [CHR 0x22] @ '': ''
       @ [CHR 0x22]"

definition bad_post :: string where
  "bad_post = '' 0'' @ [CHR 0x22] @ [CHR 0x0A] @ ''        }'' @ [CHR 0x0A] @ ''      ],''
       @ [CHR 0x0A] @ ''      '' @ [CHR 0x22] @ ''notes'' @ [CHR 0x22] @ '': ''
       @ [CHR 0x22] @ ''ok'' @ [CHR 0x22] @ [CHR 0x0A] @ ''    }'' @ [CHR 0x0A]
       @ ''  ],'' @ [CHR 0x0A] @ ''  '' @ [CHR 0x22] @ ''parts'' @ [CHR 0x22] @ '': []''
       @ [CHR 0x0A] @ ''}''"

lemma strip_tags_pre: "CHR ''<'' \<notin> set pre \<Longrightarrow> strip_tags (pre @ s) = pre @ strip_tags s"
proof (induction pre)
  case (Cons c cs)
  then have "c \<noteq> CHR ''<''" by auto
  then have "match_tag (c # cs @ s) = None" by (cases "cs @ s") simp_all
  with Cons show ?case by simp
qed simp

lemma strip_tags_match:
  "body \<noteq> [] \<Longrightarrow> CHR ''>'' \<notin> set body \<Longrightarrow>
     strip_tags (CHR ''<'' # body @ CHR ''>'' # post) = strip_tags post"
  using match_tag_intro[of body post] by simp

lemma strip_tags_lt_free: "CHR ''<'' \<notin> set s \<Longrightarrow> strip_tags s = s"
  using has_tag_lt[of s] strip_tags_id[of s] by blast

lemma str_nat_200: "str_nat 200 = ''200''"
  by (simp add: str_nat_big str_nat_small digit_char_def)

lemma plain_code: "\<forall>c\<in>set (big n @ '' > 0''). plain c"
  by (auto simp: big_def plain_def)

lemma dumps_bad_part:
  "dumps (contacts_part [bad_ep n] (JArr []))
     = bad_pre @ CHR ''<'' # (bad_mid @ big n @ '' '') @ CHR ''>'' # bad_post"
  by (simp add: dumps_def contacts_part_def bad_ep_def encode_str_plain[OF plain_code]
      str_int_def str_nat_200 newline_indent_def numeral_2_eq_2 numeral_3_eq_3
      bad_pre_def bad_mid_def bad_post_def)
    (simp add: encode_str_plain plain_def)


lemma bad_pre_lt: "CHR ''<'' \<notin> set bad_pre"
  by (simp add: bad_pre_def)

lemma bad_post_lt: "CHR ''<'' \<notin> set bad_post"
  by (simp add: bad_post_def)

lemma bad_body_gt: "CHR ''>'' \<notin> set (bad_mid @ big n @ '' '')"
  by (simp add: bad_mid_def big_def)

lemma text_bad_part: "write_json_text (contacts_part [bad_ep n] (JArr [])) = bad_pre @ bad_post"
proof -
  let ?body = "bad_mid @ big n @ '' ''"
  have b: "?body \<noteq> []" by (simp add: bad_mid_def)
  have "has_tag (dumps (contacts_part [bad_ep n] (JArr [])))"
    unfolding has_tag_iff dumps_bad_part using b bad_body_gt[of n] by blast
  moreover have "strip_tags (dumps (contacts_part [bad_ep n] (JArr []))) = bad_pre @ bad_post"
    unfolding dumps_bad_part
    by (simp only: strip_tags_pre[OF bad_pre_lt] strip_tags_match[OF b bad_body_gt]
        strip_tags_lt_free[OF bad_post_lt])
  ultimately show ?thesis by (simp add: write_json_text_def Let_def)
qed

lemma loads_bad_text: "loads (bad_pre @ bad_post) = Inl JSONDecodeError"
  by code_simp

lemma size_bad_doc: "size_of_eps (contacts_doc X) [bad_ep n] = n + 327"
  by (simp add: size_of_eps_def contacts_doc_set)
    (simp add: contacts_doc_def bad_ep_def dumps_def utf8_len_encode_plain[OF plain_code]
      length_big utf8_len_Cons utf8_width_def utf8_len_newline_indent str_int_def str_nat_200
      numeral_2_eq_2[symmetric] numeral_3_eq_3[symmetric],
     simp add: utf8_len_encode_plain plain_def)


lemma empty_chunk_accepts: "loop_step b (parts, []) e = (parts, [e])"
  by (simp add: loop_step_def)

text \<open>
  Claim C2 (the code's behaviour at a failing input). The greedy scan itself does what the
  claim says: an endpoint met while the current part is empty is accepted whatever its
  size (\<open>empty_chunk_accepts\<close>), and a one-endpoint list gives the single slice
  \<open>[[e]]\<close> (\<open>split_endpoints_single\<close>). The run as a whole can still fail. In the
  document below the only endpoint is oversized (123327 bytes measured), its \<open>name\<close>
  holds a \<open><\<close> and the \<open>code\<close> of its response example holds a \<open>>\<close>. The
  first pass writes the part through \<open>write_json\<close>, whose filter removes everything
  from the \<open><\<close> to the \<open>>\<close>, across the string boundaries; the second pass reads
  the file back, \<open>json.loads\<close> raises, and \<open>split_if_large\<close> ends with the error,
  leaving the mutilated file with no \<open>parts\<close> list filled in.
\<close>

theorem oversized_endpoint_read_back_fails:
  "KB_LIMIT < size_of_eps (contacts_doc [bad_ep 123000]) [bad_ep 123000]
   \<and> split_endpoints (contacts_doc [bad_ep 123000]) [bad_ep 123000] = [[bad_ep 123000]]
   \<and> split_if_large contacts_path (contacts_doc [bad_ep 123000]) Map.empty
       = (Inl JSONDecodeError, [part_path ''contacts.part1.json'' \<mapsto> bad_pre @ bad_post])"
proof -
  let ?D = "contacts_doc [bad_ep 123000]"
  have sz: "KB_LIMIT < size_of_eps ?D [bad_ep 123000]"
    by (simp add: size_bad_doc KB_LIMIT_def)
  then have big: "\<not> utf8_len (dumps (JObj ?D)) \<le> KB_LIMIT"
    by (simp add: size_contacts_doc)
  have w1: "write_parts ''contacts'' ?D (Suc 0) [[bad_ep 123000]] Map.empty =
      ([''contacts.part1.json''], [part_path ''contacts.part1.json'' \<mapsto> bad_pre @ bad_post])"
    by (simp add: contacts_part_eq contacts_names write_json_def Let_def text_bad_part)
  have w2: "update_parts [''contacts.part1.json''] [''contacts.part1.json'']
      [part_path ''contacts.part1.json'' \<mapsto> bad_pre @ bad_post] =
      (Inl JSONDecodeError, [part_path ''contacts.part1.json'' \<mapsto> bad_pre @ bad_post])"
    by (simp add: loads_bad_text)
  have run: "split_if_large contacts_path ?D Map.empty
       = (Inl JSONDecodeError, [part_path ''contacts.part1.json'' \<mapsto> bad_pre @ bad_post])"
    unfolding split_if_large_def
    by (simp add: get_endpoints_contacts big split_endpoints_single contacts_stem w1 w2
        del: write_parts.simps update_parts.simps)
  from sz run show ?thesis by (simp add: split_endpoints_single)
qed

subsection \<open>A split document with angle brackets in two endpoints of one part\<close>

definition list_ep :: json where
  "list_ep = JObj [(''name'', JStr ''List''), (''method'', JStr ''GET''),
                   (''path'', JStr ''/contacts''), (''notes'', JStr ''age < 30'')]"

definition create_ep :: json where
  "create_ep = JObj [(''name'', JStr ''Create''), (''method'', JStr ''POST''),
                     (''path'', JStr ''/contacts''), (''notes'', JStr ''new contact'')]"

definition show_ep :: json where
  "show_ep = JObj [(''name'', JStr ''Show''), (''method'', JStr ''GET''),
                   (''path'', JStr ''/contacts/:id''), (''notes'', JStr ''id > 0'')]"

definition merged_ep :: json where
  "merged_ep = JObj [(''name'', JStr ''List''), (''method'', JStr ''GET''),
                     (''path'', JStr ''/contacts''), (''notes'', JStr ''age  0'')]"

lemma size_small_2: "size_of_eps (contacts_doc X) [list_ep, create_ep] = 324"
  unfolding size_of_eps_def contacts_doc_set by code_simp

lemma size_small_3: "size_of_eps (contacts_doc X) [list_ep, create_ep, show_ep] = 437"
  unfolding size_of_eps_def contacts_doc_set by code_simp

lemma size_small_4:
  "size_of_eps (contacts_doc X) [list_ep, create_ep, show_ep, ep n] = n + 518"
  by (simp add: size_of_eps_def contacts_doc_set)
    (simp add: contacts_doc_def list_ep_def create_ep_def show_ep_def size_simps size_ep
      numeral_2_eq_2[symmetric])

lemma split_small:
  "split_endpoints (contacts_doc X) [list_ep, create_ep, show_ep, ep 123000]
     = [[list_ep, create_ep, show_ep], [ep 123000]]"
  by (simp add: split_endpoints_def loop_step_def size_small_2 size_small_3 size_small_4
      KB_LIMIT_def)

lemma text_small_part:
  "write_json_text (contacts_part [list_ep, create_ep, show_ep] (JArr []))
     = dumps (contacts_part [merged_ep] (JArr []))"
  by code_simp

lemma merged_ok: "lt_free_items [merged_ep]" "wf_items [merged_ep]"
  by (simp_all add: merged_ep_def)

lemma small_run:
  "split_if_large contacts_path (contacts_doc [list_ep, create_ep, show_ep, ep 123000]) Map.empty =
     (Inr [''contacts.part1.json'', ''contacts.part2.json''],
      [part_path ''contacts.part1.json'' \<mapsto> dumps (contacts_part [merged_ep] contacts_parts_field),
       part_path ''contacts.part2.json'' \<mapsto> dumps (contacts_part [ep 123000] contacts_parts_field)])"
proof -
  let ?D = "contacts_doc [list_ep, create_ep, show_ep, ep 123000]"
  let ?n1 = "''contacts.part1.json''" and ?n2 = "''contacts.part2.json''"
  have big: "\<not> utf8_len (dumps (JObj ?D)) \<le> KB_LIMIT"
    by (simp add: size_contacts_doc size_small_4 KB_LIMIT_def)
  have ne: "part_path ?n1 \<noteq> part_path ?n2" by (simp add: part_path_def)
  have w1: "write_parts ''contacts'' ?D (Suc 0) [[list_ep, create_ep, show_ep], [ep 123000]] Map.empty =
      ([?n1, ?n2],
       [part_path ?n1 \<mapsto> dumps (contacts_part [merged_ep] (JArr [])),
        part_path ?n2 \<mapsto> dumps (contacts_part [ep 123000] (JArr []))])"
    by (simp add: contacts_part_eq contacts_names write_json_def Let_def text_small_part
        write_contacts_part(1)[OF eps_ok(3,4) parts_field_ok(3,4)])
  have w2: "update_parts [?n1, ?n2] [?n1, ?n2]
      [part_path ?n1 \<mapsto> dumps (contacts_part [merged_ep] (JArr [])),
       part_path ?n2 \<mapsto> dumps (contacts_part [ep 123000] (JArr []))] =
      (Inr (),
       [part_path ?n1 \<mapsto> dumps (contacts_part [merged_ep] contacts_parts_field),
        part_path ?n2 \<mapsto> dumps (contacts_part [ep 123000] contacts_parts_field)])"
    using ne
    by (simp add: write_json_def contacts_part_set contacts_parts_field_def[symmetric]
        write_contacts_part(2)[OF merged_ok parts_field_ok(3,4)]
        write_contacts_part(2)[OF eps_ok(3,4) parts_field_ok(3,4)]
        write_contacts_part(1)[OF merged_ok parts_field_ok(1,2)]
        write_contacts_part(1)[OF eps_ok(3,4) parts_field_ok(1,2)] fun_upd_twist)
  show ?thesis
    unfolding split_if_large_def
    by (simp add: get_endpoints_contacts big split_small contacts_stem w1 w2 del: write_parts.simps update_parts.simps)
qed


text \<open>
  Claim C4 (the code's behaviour at a failing input). The document below has four
  endpoints and is split into the slices \<open>[list_ep, create_ep, show_ep]\<close> and
  \<open>[ep 123000]\<close>. The first pass writes each part through \<open>write_json\<close>. In the
  first part the \<open>notes\<close> of \<open>list_ep\<close> hold a \<open><\<close> and the \<open>notes\<close> of
  \<open>show_ep\<close> hold a \<open>>\<close>: the writer's filter removes the text between them, and
  what is left is the serialisation of a part with the single endpoint \<open>merged_ep\<close>.
  The second pass reads that file back and sets \<open>parts\<close> on it. The run returns both
  part names without an error, every part does carry the same \<open>parts\<close> list, but the
  endpoint slices of the written parts are \<open>[merged_ep]\<close> and \<open>[ep 123000]\<close>: their
  concatenation is not the original endpoint list, \<open>create_ep\<close> and \<open>show_ep\<close> are
  in no part.
\<close>

theorem split_parts_lose_endpoints:
  "split_endpoints (contacts_doc [list_ep, create_ep, show_ep, ep 123000])
       [list_ep, create_ep, show_ep, ep 123000]
     = [[list_ep, create_ep, show_ep], [ep 123000]]
   \<and> split_if_large contacts_path (contacts_doc [list_ep, create_ep, show_ep, ep 123000]) Map.empty =
     (Inr [''contacts.part1.json'', ''contacts.part2.json''],
      [part_path ''contacts.part1.json'' \<mapsto> dumps (contacts_part [merged_ep] contacts_parts_field),
       part_path ''contacts.part2.json'' \<mapsto> dumps (contacts_part [ep 123000] contacts_parts_field)])
   \<and> loads (dumps (contacts_part [merged_ep] contacts_parts_field))
       = Inr (contacts_part [merged_ep] contacts_parts_field)
   \<and> loads (dumps (contacts_part [ep 123000] contacts_parts_field))
       = Inr (contacts_part [ep 123000] contacts_parts_field)
   \<and> [merged_ep] @ [ep 123000] \<noteq> [list_ep, create_ep, show_ep, ep 123000]"
proof -
  note split_small small_run
    write_contacts_part(2)[OF merged_ok parts_field_ok(1,2)]
    write_contacts_part(2)[OF eps_ok(3,4) parts_field_ok(1,2)]
  then show ?thesis by simp
qed

subsection \<open>A small document with angle brackets\<close>

definition renamed_doc :: dict where
  "renamed_doc = [(''title'', JStr ''T''), (''p<'', JInt 1), (''>arts'', JInt 2),
                  (''endpoints'', JArr [])]"

lemma text_small_doc:
  "write_json_text (JObj (contacts_doc [list_ep, create_ep, show_ep]))
     = dumps (JObj (contacts_doc [merged_ep]))"
  by code_simp

lemma size_merged_doc: "utf8_len (dumps (JObj (contacts_doc [merged_ep]))) = 205"
  by code_simp

lemma loads_renamed_doc:
  "loads (write_json_text (JObj renamed_doc))
     = Inr (JObj [(''title'', JStr ''T''), (''parts'', JInt 2), (''endpoints'', JArr [])])"
  by code_simp

text \<open>
  Claim C3 (the code's behaviour at a failing input). The document of the three endpoints
  \<open>list_ep\<close>, \<open>create_ep\<close>, \<open>show_ep\<close> serialises to 437 bytes, far under
  \<open>KB_LIMIT\<close>, so \<open>split_if_large\<close> takes the early return: one call of
  \<open>write_json\<close> on \<open>base_obj\<close>, one file name. The file is not the document
  unchanged: the writer's filter removes the text from the \<open><\<close> in the \<open>notes\<close> of
  \<open>list_ep\<close> to the \<open>>\<close> in the \<open>notes\<close> of \<open>show_ep\<close>, and the file is the
  205-byte serialisation of the document with the single endpoint \<open>merged_ep\<close>. The
  same filter can add a \<open>parts\<close> field: \<open>renamed_doc\<close> has an empty endpoint list
  and no key \<open>parts\<close>, and the file written for it reads back with one.
\<close>

theorem small_document_not_written_unchanged:
  "utf8_len (dumps (JObj (contacts_doc [list_ep, create_ep, show_ep]))) = 437
   \<and> 437 \<le> KB_LIMIT
   \<and> split_if_large contacts_path (contacts_doc [list_ep, create_ep, show_ep]) Map.empty
       = (Inr [''contacts.json''], [contacts_path \<mapsto> dumps (JObj (contacts_doc [merged_ep]))])
   \<and> loads (dumps (JObj (contacts_doc [merged_ep]))) = Inr (JObj (contacts_doc [merged_ep]))
   \<and> utf8_len (dumps (JObj (contacts_doc [merged_ep]))) = 205
   \<and> dict_get renamed_doc ''endpoints'' = Some (JArr [])
   \<and> dict_get renamed_doc ''parts'' = None
   \<and> split_if_large contacts_path renamed_doc Map.empty
       = (Inr [''contacts.json''], [contacts_path \<mapsto> write_json_text (JObj renamed_doc)])
   \<and> loads (write_json_text (JObj renamed_doc))
       = Inr (JObj [(''title'', JStr ''T''), (''parts'', JInt 2), (''endpoints'', JArr [])])"
proof -
  let ?D = "contacts_doc [list_ep, create_ep, show_ep]"
  have sz: "utf8_len (dumps (JObj ?D)) = 437"
    by (simp add: size_contacts_doc size_small_3)
  have lim: "437 \<le> KB_LIMIT" by (simp add: KB_LIMIT_def)
  have nm: "path_name contacts_path = ''contacts.json''"
    by (simp add: path_name_def contacts_path_def)
  from sz lim have "utf8_len (dumps (JObj ?D)) \<le> KB_LIMIT
      \<or> dict_get ?D ''endpoints'' = Some (JArr [])" by simp
  from early_return_calls_write_json[OF this, of contacts_path Map.empty]
  have "split_if_large contacts_path ?D Map.empty
      = (Inr [path_name contacts_path], Map.empty(contacts_path \<mapsto> write_json_text (JObj ?D)))"
    by simp
  then have r1: "split_if_large contacts_path ?D Map.empty
       = (Inr [''contacts.json''], [contacts_path \<mapsto> dumps (JObj (contacts_doc [merged_ep]))])"
    by (simp only: nm text_small_doc)
  have "wf_json (JObj (contacts_doc [merged_ep]))"
    by (simp add: contacts_doc_def merged_ep_def)
  then have l1: "loads (dumps (JObj (contacts_doc [merged_ep]))) = Inr (JObj (contacts_doc [merged_ep]))"
    by (rule loads_dumps)
  have g: "dict_get renamed_doc ''endpoints'' = Some (JArr [])"
    and p: "dict_get renamed_doc ''parts'' = None"
    by (simp_all add: renamed_doc_def)
  from g have "utf8_len (dumps (JObj renamed_doc)) \<le> KB_LIMIT
      \<or> dict_get renamed_doc ''endpoints'' = Some (JArr [])" by simp
  from early_return_calls_write_json[OF this, of contacts_path Map.empty]
  have "split_if_large contacts_path renamed_doc Map.empty
      = (Inr [path_name contacts_path], Map.empty(contacts_path \<mapsto> write_json_text (JObj renamed_doc)))"
    by simp
  then have r2: "split_if_large contacts_path renamed_doc Map.empty
       = (Inr [''contacts.json''], [contacts_path \<mapsto> write_json_text (JObj renamed_doc)])"
    by (simp only: nm)
  from sz lim r1 l1 size_merged_doc g p r2 loads_renamed_doc show ?thesis by blast
qed

subsection \<open>Re-splitting the emitted parts\<close>

text \<open>
  The reassembly of claim C9, in the claim's words: the endpoint slices of the parts, in
  part order, as one endpoint list inside the document shape of the parts (the first
  part's fields).
\<close>

fun part_endpoints :: "json \<Rightarrow> json list" where
  "part_endpoints (JObj d) = (case dict_get d ''endpoints'' of Some (JArr xs) \<Rightarrow> xs | _ \<Rightarrow> [])"
| "part_endpoints v = []"

fun reassemble :: "json list \<Rightarrow> dict option" where
  "reassemble (JObj d # ps) =
     Some (dict_set d ''endpoints'' (JArr (concat (map part_endpoints (JObj d # ps)))))"
| "reassemble ps = None"

definition contacts_parts_doc :: "json list \<Rightarrow> dict" where
  "contacts_parts_doc eps =
     [(''title'', JStr ''Contacts''), (''category'', JStr ''API v2''),
      (''resource'', JStr ''contacts''), (''endpoints'', JArr eps),
      (''parts'', contacts_parts_field)]"

lemma contacts_parts_doc_part: "JObj (contacts_parts_doc eps) = contacts_part eps contacts_parts_field"
  by (simp add: contacts_parts_doc_def contacts_part_def)

lemma contacts_parts_doc_set:
  "dict_set (contacts_parts_doc X) ''endpoints'' (JArr eps) = contacts_parts_doc eps"
  by (simp add: contacts_parts_doc_def)

lemma size_parts_doc_2: "size_of_eps (contacts_parts_doc X) [ep a, ep b] = a + b + 329"
  by (simp add: size_of_eps_def contacts_parts_doc_set contacts_parts_doc_part
      contacts_parts_field_def size_contacts_part)

lemma reassemble_contacts:
  "reassemble [contacts_part [ep 61000, ep 61622] contacts_parts_field,
               contacts_part [ep 100] contacts_parts_field]
     = Some (contacts_parts_doc [ep 61000, ep 61622, ep 100])"
  by (simp add: contacts_part_def contacts_parts_doc_def)

lemma part_endpoints_contacts:
  "concat (map part_endpoints [contacts_part [ep 61000, ep 61622] contacts_parts_field,
               contacts_part [ep 100] contacts_parts_field]) = [ep 61000, ep 61622, ep 100]"
  by (simp add: contacts_part_def)

lemma resplit_contacts:
  "split_endpoints (contacts_parts_doc X) [ep 61000, ep 61622, ep 100]
     = [[ep 61000], [ep 61622, ep 100]]"
  by (simp add: split_endpoints_def loop_step_def size_parts_doc_2 KB_LIMIT_def)

lemma size_merged_big: "size_of_eps (contacts_doc X) [merged_ep, ep n] = n + 286"
  by (simp add: size_of_eps_def contacts_doc_set)
    (simp add: contacts_doc_def merged_ep_def size_simps size_ep numeral_2_eq_2[symmetric])

lemma resplit_merged:
  "split_endpoints (contacts_doc X) [merged_ep, ep 123000] = [[merged_ep], [ep 123000]]"
  by (simp add: split_endpoints_def loop_step_def size_merged_big KB_LIMIT_def)


lemma part_endpoints_merged:
  "concat (map part_endpoints [contacts_part [merged_ep] contacts_parts_field,
               contacts_part [ep 123000] contacts_parts_field]) = [merged_ep, ep 123000]"
  by (simp add: contacts_part_def)

text \<open>
  Claim C9 (the code's behaviour at two failing inputs). The first split of the
  three-endpoint document has the boundaries \<open>[2, 1]\<close>. Its emitted parts read back as
  documents that carry the \<open>parts\<close> list; reassembling their endpoint slices in part
  order inside that document shape and splitting again under the same \<open>KB_LIMIT\<close>
  gives the boundaries \<open>[1, 2]\<close>: the first slice was measured without the
  \<open>parts\<close> list at exactly the budget, and with the list it no longer fits. For the
  four-endpoint document the first split has the boundaries \<open>[3, 1]\<close>, the writer's
  filter leaves the slices \<open>[merged_ep]\<close> and \<open>[ep 123000]\<close> in the emitted parts, and
  re-splitting them, even inside the original \<open>base_obj\<close>, gives \<open>[1, 1]\<close>.
\<close>

theorem resplit_of_emitted_parts_moves_boundaries:
  "map length (split_endpoints (contacts_doc [ep 61000, ep 61622, ep 100])
                 [ep 61000, ep 61622, ep 100]) = [2, 1]
   \<and> split_if_large contacts_path (contacts_doc [ep 61000, ep 61622, ep 100]) Map.empty =
     (Inr [''contacts.part1.json'', ''contacts.part2.json''],
      [part_path ''contacts.part1.json'' \<mapsto> dumps (contacts_part [ep 61000, ep 61622] contacts_parts_field),
       part_path ''contacts.part2.json'' \<mapsto> dumps (contacts_part [ep 100] contacts_parts_field)])
   \<and> loads (dumps (contacts_part [ep 61000, ep 61622] contacts_parts_field))
       = Inr (contacts_part [ep 61000, ep 61622] contacts_parts_field)
   \<and> loads (dumps (contacts_part [ep 100] contacts_parts_field))
       = Inr (contacts_part [ep 100] contacts_parts_field)
   \<and> reassemble [contacts_part [ep 61000, ep 61622] contacts_parts_field,
                  contacts_part [ep 100] contacts_parts_field]
       = Some (contacts_parts_doc [ep 61000, ep 61622, ep 100])
   \<and> map length (split_endpoints (contacts_parts_doc [ep 61000, ep 61622, ep 100])
                 (concat (map part_endpoints
                    [contacts_part [ep 61000, ep 61622] contacts_parts_field,
                     contacts_part [ep 100] contacts_parts_field]))) = [1, 2]
   \<and> map length (split_endpoints (contacts_doc [list_ep, create_ep, show_ep, ep 123000])
                 [list_ep, create_ep, show_ep, ep 123000]) = [3, 1]
   \<and> split_if_large contacts_path (contacts_doc [list_ep, create_ep, show_ep, ep 123000]) Map.empty =
     (Inr [''contacts.part1.json'', ''contacts.part2.json''],
      [part_path ''contacts.part1.json'' \<mapsto> dumps (contacts_part [merged_ep] contacts_parts_field),
       part_path ''contacts.part2.json'' \<mapsto> dumps (contacts_part [ep 123000] contacts_parts_field)])
   \<and> loads (dumps (contacts_part [merged_ep] contacts_parts_field))
       = Inr (contacts_part [merged_ep] contacts_parts_field)
   \<and> loads (dumps (contacts_part [ep 123000] contacts_parts_field))
       = Inr (contacts_part [ep 123000] contacts_parts_field)
   \<and> map length (split_endpoints (contacts_doc [list_ep, create_ep, show_ep, ep 123000])
                 (concat (map part_endpoints
                    [contacts_part [merged_ep] contacts_parts_field,
                     contacts_part [ep 123000] contacts_parts_field]))) = [1, 1]"
proof -
  have a: "map length (split_endpoints (contacts_doc [ep 61000, ep 61622, ep 100])
                 [ep 61000, ep 61622, ep 100]) = [2, 1]"
    by (simp add: split_contacts)
  have b: "map length (split_endpoints (contacts_parts_doc [ep 61000, ep 61622, ep 100])
                 (concat (map part_endpoints
                    [contacts_part [ep 61000, ep 61622] contacts_parts_field,
                     contacts_part [ep 100] contacts_parts_field]))) = [1, 2]"
    by (simp only: part_endpoints_contacts resplit_contacts) simp
  have c: "map length (split_endpoints (contacts_doc [list_ep, create_ep, show_ep, ep 123000])
                 [list_ep, create_ep, show_ep, ep 123000]) = [3, 1]"
    by (simp add: split_small)
  have d: "map length (split_endpoints (contacts_doc [list_ep, create_ep, show_ep, ep 123000])
                 (concat (map part_endpoints
                    [contacts_part [merged_ep] contacts_parts_field,
                     contacts_part [ep 123000] contacts_parts_field]))) = [1, 1]"
    by (simp only: part_endpoints_merged resplit_merged) simp
  note a b c d contacts_run small_run reassemble_contacts
    write_contacts_part(2)[OF eps_ok(1,2) parts_field_ok(1,2)]
    write_contacts_part(2)[OF eps_ok(3,4) parts_field_ok(1,2)]
    write_contacts_part(2)[OF merged_ok parts_field_ok(1,2)]
  then show ?thesis by blast
qed

section \<open>Text helpers of \<open>split_api_docs\<close>\<close>

text \<open>
  Python's \<open>str.isspace\<close> and the class \<open>\s\<close> of \<open>re\<close> agree on the code points
  below U+0100: the ASCII white space, the separators U+001C..U+001F, U+0085 and U+00A0.
  \<open>str.lower\<close> maps \<open>A-Z\<close> and the upper-case letters of U+00C0..U+00DE
  (but not the multiplication sign U+00D7) to the letter 32 places on.
\<close>

definition is_space :: "char \<Rightarrow> bool" where
  "is_space c \<longleftrightarrow>
     (let n = (of_char c :: nat) in
      (9 \<le> n \<and> n \<le> 13) \<or> (28 \<le> n \<and> n \<le> 32) \<or> n = 133 \<or> n = 160)"

definition lower_char :: "char \<Rightarrow> char" where
  "lower_char c =
     (let n = (of_char c :: nat) in
      if (65 \<le> n \<and> n \<le> 90) \<or> (192 \<le> n \<and> n \<le> 222 \<and> n \<noteq> 215)
      then char_of (n + 32) else c)"

definition lower :: "string \<Rightarrow> string" where
  "lower s = map lower_char s"

definition lstrip :: "string \<Rightarrow> string" where
  "lstrip s = dropWhile is_space s"

definition rstrip :: "string \<Rightarrow> string" where
  "rstrip s = rev (dropWhile is_space (rev s))"

definition strip :: "string \<Rightarrow> string" where
  "strip s = rstrip (lstrip s)"

definition startswith :: "string \<Rightarrow> string \<Rightarrow> bool" where
  "startswith s p \<longleftrightarrow> take (length p) s = p"

fun sub_runs :: "(char \<Rightarrow> bool) \<Rightarrow> char \<Rightarrow> string \<Rightarrow> string" where
  "sub_runs P r [] = []"
| "sub_runs P r [c] = (if P c then [r] else [c])"
| "sub_runs P r (c # d # cs) =
     (if P c then (if P d then sub_runs P r (d # cs) else r # sub_runs P r (d # cs))
      else c # sub_runs P r (d # cs))"

definition slug_char :: "char \<Rightarrow> bool" where
  "slug_char c \<longleftrightarrow>
     (let n = (of_char c :: nat) in
      (97 \<le> n \<and> n \<le> 122) \<or> (48 \<le> n \<and> n \<le> 57) \<or> c = CHR ''-'')"

definition slugify :: "string \<Rightarrow> string" where
  "slugify s =
     (if s = [] then []
      else
        let s1 = sub_runs (\<lambda>c. is_space c \<or> c = CHR ''/'') (CHR ''-'') (strip s);
            s2 = lower s1;
            s3 = filter slug_char s2
        in sub_runs (\<lambda>c. c = CHR ''-'') (CHR ''-'') s3)"

definition collapse_ws :: "string \<Rightarrow> string" where
  "collapse_ws text = sub_runs is_space (CHR '' '') (strip text)"

fun join :: "string \<Rightarrow> string list \<Rightarrow> string" where
  "join sep [] = []"
| "join sep [x] = x"
| "join sep (x # y # ys) = x @ sep @ join sep (y # ys)"

section \<open>The parsed HTML tree\<close>

datatype node =
    Text string
  | Special string
  | Tag string "(string \<times> string) list" "node list"

fun node_name :: "node \<Rightarrow> string option" where
  "node_name (Tag name attrs children) = Some name"
| "node_name n = None"

fun children :: "node \<Rightarrow> node list" where
  "children (Tag name attrs cs) = cs"
| "children n = []"

fun attr :: "node \<Rightarrow> string \<Rightarrow> string option" where
  "attr (Tag name attrs cs) k = map_of attrs k"
| "attr n k = None"

definition attr_or_empty :: "node \<Rightarrow> string \<Rightarrow> string" where
  "attr_or_empty n k = (case attr n k of None \<Rightarrow> [] | Some v \<Rightarrow> v)"

fun all_strings :: "node \<Rightarrow> string list" where
  "all_strings (Text s) = [s]"
| "all_strings (Special s) = []"
| "all_strings (Tag name attrs cs) = concat (map all_strings cs)"

definition get_text :: "node \<Rightarrow> string" where
  "get_text n = concat (all_strings n)"

definition get_text_stripped :: "node \<Rightarrow> string" where
  "get_text_stripped n = concat (filter (\<lambda>s. s \<noteq> []) (map strip (all_strings n)))"

definition get_text_lines :: "node \<Rightarrow> string" where
  "get_text_lines n = join [CHR 0x0A] (all_strings n)"

fun find_all :: "string list \<Rightarrow> node \<Rightarrow> node list" where
  "find_all names (Tag name attrs cs) =
     concat (map (\<lambda>c. (case node_name c of
                           Some n \<Rightarrow> if n \<in> set names then [c] else []
                         | None \<Rightarrow> []) @ find_all names c) cs)"
| "find_all names n = []"

definition find_direct :: "string \<Rightarrow> node \<Rightarrow> node list" where
  "find_direct name n = filter (\<lambda>c. node_name c = Some name) (children n)"

definition find_first :: "string \<Rightarrow> node \<Rightarrow> node option" where
  "find_first name n = (case find_all [name] n of [] \<Rightarrow> None | x # xs \<Rightarrow> Some x)"

fun decompose :: "string list \<Rightarrow> node \<Rightarrow> node" where
  "decompose names (Tag name attrs cs) =
     Tag name attrs
       (map (decompose names)
          (filter (\<lambda>c. case node_name c of Some n \<Rightarrow> n \<notin> set names | None \<Rightarrow> True) cs))"
| "decompose names n = n"

section \<open>\<open>_node_to_text\<close> and \<open>_inline_runs\<close>\<close>

fun node_str :: "node \<Rightarrow> string" where
  "node_str (Text s) = s"
| "node_str (Special s) = s"
| "node_str (Tag name attrs cs) = []"

fun node_to_text :: "node \<Rightarrow> string" where
  "node_to_text (Text s) = collapse_ws s"
| "node_to_text (Special s) = collapse_ws s"
| "node_to_text (Tag name attrs cs) =
     (let nm = lower name; node = Tag name attrs cs in
      if nm = ''a'' then
        (let text = collapse_ws (get_text_stripped node);
             href = strip (attr_or_empty node ''href'')
         in if href \<noteq> [] then
              (if text \<noteq> [] \<and> text \<noteq> href then collapse_ws (text @ '' ('' @ href @ '')'')
               else href)
            else text)
      else if nm \<in> {''code'', ''kbd'', ''samp''} then
        ''`'' @ collapse_ws (get_text node) @ ''`''
      else if nm = ''br'' then [CHR 0x0A]
      else collapse_ws (join '' '' (map node_to_text cs)))"

record run =
  run_text :: string
  run_link :: "string option"
  run_code :: bool

definition add_text :: "string \<Rightarrow> string option \<Rightarrow> bool \<Rightarrow> run list" where
  "add_text t link code =
     (if t = [] then []
      else [\<lparr>run_text = t,
             run_link = (case link of None \<Rightarrow> None | Some l \<Rightarrow> if l = [] then None else Some l),
             run_code = code\<rparr>])"

fun child_runs :: "node \<Rightarrow> run list" where
  "child_runs (Text s) = add_text (collapse_ws s) None False"
| "child_runs (Special s) = add_text (collapse_ws s) None False"
| "child_runs (Tag name attrs cs) =
     (let nm = lower name; child = Tag name attrs cs in
      if nm = ''a'' then
        (let text = collapse_ws (get_text_stripped child);
             href = strip (attr_or_empty child ''href'')
         in add_text (if text \<noteq> [] then text else href)
              (if href \<noteq> [] then Some href else None) False)
      else if nm \<in> {''code'', ''kbd'', ''samp''} then
        add_text (collapse_ws (get_text child)) None True
      else if nm = ''br'' then add_text [CHR 0x0A] None False
      else concat (map child_runs cs))"

definition inline_runs :: "node \<Rightarrow> run list" where
  "inline_runs node = concat (map child_runs (children node))"


section \<open>\<open>html_to_blocks\<close>\<close>

datatype sub_list = SubList string "int option" "(string \<times> run list) list"

datatype list_item = ListItem string "run list" "sub_list list option"

datatype payload =
    Heading nat string string
  | Paragraph string "run list"
  | Callout string string "run list"
  | ListBlock string "int option" "list_item list"
  | Code string "string option"
  | Blockquote string
  | Table "string list" "string list list" "string list"
  | Separator

record block =
  payload :: payload
  block_id :: string
  order :: nat

fun btype :: "payload \<Rightarrow> string" where
  "btype (Heading level t slug) = ''heading''"
| "btype (Paragraph t runs) = ''paragraph''"
| "btype (Callout variant t runs) = ''callout''"
| "btype (ListBlock style start items) = ''list''"
| "btype (Code t lang) = ''code''"
| "btype (Blockquote t) = ''blockquote''"
| "btype (Table header rows align) = ''table''"
| "btype Separator = ''separator''"

definition base_id :: "payload \<Rightarrow> nat \<Rightarrow> string" where
  "base_id p ord =
     (case p of
        Heading level t slug \<Rightarrow> ''h'' @ str_nat level @ ''-'' @ slugify t
      | _ \<Rightarrow> btype p @ ''-'' @ str_nat ord)"

definition push_block :: "payload \<Rightarrow> block list \<times> nat \<Rightarrow> block list \<times> nat" where
  "push_block p st =
     (case st of (blocks, ord) \<Rightarrow>
        (blocks @ [\<lparr>payload = p, block_id = base_id p ord, order = ord\<rparr>], ord + 1))"

fun digits_us :: "string \<Rightarrow> string option" where
  "digits_us [] = None"
| "digits_us [c] = (if is_digit c then Some [c] else None)"
| "digits_us (c # d # cs) =
     (if is_digit c then
        (if d = CHR ''_'' then map_option (Cons c) (digits_us cs)
         else map_option (Cons c) (digits_us (d # cs)))
      else None)"

definition py_int :: "string \<Rightarrow> int option" where
  "py_int s =
     (case strip s of
        [] \<Rightarrow> None
      | c # cs \<Rightarrow>
          if c = CHR ''-'' then map_option (\<lambda>ds. - int (nat_of_digits ds)) (digits_us cs)
          else if c = CHR ''+'' then map_option (\<lambda>ds. int (nat_of_digits ds)) (digits_us cs)
          else map_option (\<lambda>ds. int (nat_of_digits ds)) (digits_us (c # cs)))"

definition list_start :: "string \<Rightarrow> node \<Rightarrow> int option" where
  "list_start name el =
     (if name = ''ol'' then (case attr el ''start'' of None \<Rightarrow> None | Some v \<Rightarrow> py_int v)
      else None)"

definition is_list_node :: "node \<Rightarrow> bool" where
  "is_list_node n \<longleftrightarrow> node_name n = Some ''ul'' \<or> node_name n = Some ''ol''"

definition span :: "node list \<Rightarrow> node" where
  "span cs = Tag ''span'' [] cs"

text \<open>
  The loop over the children of a nested \<open>li\<close> appends each child that is not a list to a
  new \<open>span\<close> while it iterates \<open>sub_li.children\<close>. Appending a node that has a parent
  removes it from that parent's \<open>contents\<close>, the list the iterator walks by index: after a
  child is moved, the next child takes its index and the iterator steps over it.
  \<open>moved_children\<close> is the list of children that reach the \<open>span\<close>.
\<close>

fun moved_children :: "node list \<Rightarrow> node list" where
  "moved_children [] = []"
| "moved_children (sn # rest) =
     (if is_list_node sn then moved_children rest
      else sn # moved_children (drop 1 rest))"

definition sub_item :: "node \<Rightarrow> string \<times> run list" where
  "sub_item sub_li =
     (let sub_container = span (moved_children (children sub_li))
      in (node_to_text sub_container, inline_runs sub_container))"

definition child_block :: "node \<Rightarrow> sub_list" where
  "child_block child_list =
     (let nm = lower (case node_name child_list of Some n \<Rightarrow> n | None \<Rightarrow> []);
          style2 = (if nm = ''ul'' then ''unordered'' else ''ordered'');
          start2 = list_start nm child_list
      in SubList style2 start2 (map sub_item (find_direct ''li'' child_list)))"

definition list_item_of :: "node \<Rightarrow> list_item" where
  "list_item_of li =
     (let children_lists = filter is_list_node (children li);
          li_text_nodes = filter (\<lambda>ch. \<not> is_list_node ch) (children li);
          li_container = span li_text_nodes;
          child_blocks = map child_block children_lists
      in ListItem (node_to_text li_container) (inline_runs li_container)
           (if child_blocks \<noteq> [] then Some child_blocks else None))"

definition prefixes :: "(string \<times> string) list" where
  "prefixes = [(''note:'', ''note''), (''note :'', ''note''), (''warning:'', ''warning''),
               (''tip:'', ''tip''), (''caution:'', ''caution'')]"

fun detect_callout :: "(string \<times> string) list \<Rightarrow> string \<Rightarrow> run list \<Rightarrow> (string \<times> string \<times> run list) option" where
  "detect_callout [] t runs = None"
| "detect_callout ((prefix, variant) # rest) t runs =
     (if startswith (lower t) prefix then
        Some (variant,
              lstrip (drop (length prefix) t),
              (case runs of
                 [] \<Rightarrow> []
               | r # rs \<Rightarrow>
                   if startswith (lower (run_text r)) prefix
                   then r\<lparr>run_text := lstrip (drop (length prefix) (run_text r))\<rparr> # rs
                   else r # rs))
      else detect_callout rest t runs)"

fun contains :: "string \<Rightarrow> string \<Rightarrow> bool" where
  "contains sub [] = (sub = [])"
| "contains sub (c # cs) = (startswith (c # cs) sub \<or> contains sub cs)"

definition lang_char :: "char \<Rightarrow> bool" where
  "lang_char c \<longleftrightarrow>
     (let n = (of_char c :: nat) in
      (97 \<le> n \<and> n \<le> 122) \<or> (48 \<le> n \<and> n \<le> 57)
        \<or> c = CHR ''_'' \<or> c = CHR ''+'' \<or> c = CHR ''-'')"

definition match_language :: "string \<Rightarrow> string option" where
  "match_language c =
     (if startswith c ''language-'' \<and> takeWhile lang_char (drop 9 c) \<noteq> []
      then Some (takeWhile lang_char (drop 9 c)) else None)"

fun words :: "string \<Rightarrow> string list" where
  "words [] = []"
| "words (c # cs) =
     (if is_space c then words cs
      else (case words cs of
              [] \<Rightarrow> [[c]]
            | w # ws \<Rightarrow> if cs \<noteq> [] \<and> \<not> is_space (hd cs) then (c # w) # ws else [c] # w # ws))"

fun first_some :: "('a \<Rightarrow> 'b option) \<Rightarrow> 'a list \<Rightarrow> 'b option" where
  "first_some f [] = None"
| "first_some f (x # xs) = (case f x of Some y \<Rightarrow> Some y | None \<Rightarrow> first_some f xs)"

definition code_lang :: "node \<Rightarrow> string option" where
  "code_lang el =
     (case find_first ''code'' el of
        None \<Rightarrow> None
      | Some inner_code \<Rightarrow>
          (case attr inner_code ''class'' of
             None \<Rightarrow> None
           | Some cls \<Rightarrow> first_some match_language (words cls)))"

definition rstrip_nl :: "string \<Rightarrow> string" where
  "rstrip_nl s = rev (dropWhile (\<lambda>c. c = CHR 0x0A) (rev s))"

definition th_align :: "node \<Rightarrow> string" where
  "th_align th =
     (let style = lower (attr_or_empty th ''style'') in
      if contains ''text-align:center'' style then ''center''
      else if contains ''text-align:right'' style then ''right''
      else ''left'')"

definition handle_element :: "node \<Rightarrow> block list \<times> nat \<Rightarrow> block list \<times> nat" where
  "handle_element el st =
     (let name = lower (case node_name el of Some n \<Rightarrow> n | None \<Rightarrow> []) in
      if name \<in> {''h2'', ''h3'', ''h4'', ''h5'', ''h6''} then
        (let level = nat_of_digits [name ! 1]; t = node_to_text el
         in push_block (Heading level t (slugify t)) st)
      else if name = ''p'' then
        (let t = node_to_text el; runs = inline_runs el in
         case detect_callout prefixes t runs of
           Some (variant, t', runs') \<Rightarrow> push_block (Callout variant t' runs') st
         | None \<Rightarrow> if t \<noteq> [] then push_block (Paragraph t runs) st else st)
      else if name \<in> {''ul'', ''ol''} then
        (let style = (if name = ''ul'' then ''unordered'' else ''ordered'');
             start = list_start name el;
             items = map list_item_of (find_direct ''li'' el)
         in push_block (ListBlock style start items) st)
      else if name = ''pre'' then
        push_block (Code (rstrip_nl (get_text_lines el)) (code_lang el)) st
      else if name = ''blockquote'' then
        (let t = node_to_text el in if t \<noteq> [] then push_block (Blockquote t) st else st)
      else if name = ''table'' then
        (let header = (case find_first ''thead'' el of
                         None \<Rightarrow> []
                       | Some thead \<Rightarrow> map node_to_text (find_all [''th''] thead));
             rows = map (map node_to_text)
                      (filter (\<lambda>cells. cells \<noteq> [])
                         (map (find_all [''th'', ''td'']) (find_all [''tr''] el)));
             align = map th_align (find_all [''th''] el)
         in push_block (Table header rows align) st)
      else if name = ''hr'' then push_block Separator st
      else st)"

definition html_to_blocks :: "node list \<Rightarrow> block list" where
  "html_to_blocks soup =
     fst (foldl (\<lambda>st child. case child of Tag n a cs \<Rightarrow> handle_element child st | _ \<Rightarrow> st)
            ([], 1)
            (children (decompose [''script'', ''style''] (Tag ''[document]'' [] soup))))"


section \<open>\<open>extract_sections_from_html\<close>\<close>

text \<open>
  A section's \<open>html\<close> is the concatenated markup of the element siblings that follow the
  \<open>h1\<close>; the model keeps those elements themselves.
\<close>

record section_rec =
  slug :: string
  title :: string
  html :: "node list"

fun h1_tags :: "node list \<Rightarrow> (node \<times> node list) list" where
  "h1_tags [] = []"
| "h1_tags (Tag name attrs cs # rest) =
     (if name = ''h1'' then [(Tag name attrs cs, rest)] else []) @ h1_tags cs @ h1_tags rest"
| "h1_tags (n # rest) = h1_tags rest"

fun node_truthy :: "node \<Rightarrow> bool" where
  "node_truthy (Text s) = (s \<noteq> [])"
| "node_truthy (Special s) = (s \<noteq> [])"
| "node_truthy (Tag name attrs cs) = True"

definition is_tag :: "node \<Rightarrow> bool" where
  "is_tag n \<longleftrightarrow> node_name n \<noteq> None"

definition section_id :: "nat \<Rightarrow> node \<Rightarrow> string" where
  "section_id idx h1 =
     (let i = attr_or_empty h1 ''id'' in
      if i \<noteq> [] then i
      else let s = slugify (get_text h1) in
           if s \<noteq> [] then s else ''section-'' @ str_nat (idx + 1))"

definition section_of :: "nat \<times> node \<times> node list \<Rightarrow> section_rec" where
  "section_of x =
     (case x of (idx, h1, siblings) \<Rightarrow>
        \<lparr>slug = section_id idx h1,
         title = strip (get_text h1),
         html = filter is_tag
                  (takeWhile (\<lambda>n. node_truthy n \<and> node_name n \<noteq> Some ''h1'') siblings)\<rparr>)"

definition extract_sections_from_html :: "node list \<Rightarrow> section_rec list" where
  "extract_sections_from_html soup =
     (let doc = Tag ''[document]'' [] soup;
          root = (case find_first ''body'' doc of Some b \<Rightarrow> b | None \<Rightarrow> doc);
          tags = h1_tags (children root);
          intro_parts = filter is_tag (takeWhile (\<lambda>n. node_name n \<noteq> Some ''h1'') (children root));
          intro = (if tags \<noteq> [] \<and> intro_parts \<noteq> []
                   then [\<lparr>slug = ''introduction'', title = ''Introduction'', html = intro_parts\<rparr>]
                   else [])
      in intro @ map section_of (zip [0..<length tags] tags))"

subsection \<open>Replacing runs\<close>








subsection \<open>The section slug\<close>


















subsection \<open>Orders and block ids\<close>

lemma not_digit_hyphen: "\<not> is_digit CHR ''-''"
  by (simp add: is_digit_def)

lemma takeWhile_digits_dash:
  "\<forall>c\<in>set a. is_digit c \<Longrightarrow> takeWhile is_digit (a @ CHR ''-'' # x) = a"
  by (induction a) (simp_all add: not_digit_hyphen)

lemma digits_dash_split:
  assumes "\<forall>c\<in>set a. is_digit c" and "\<forall>c\<in>set b. is_digit c"
    and "a @ CHR ''-'' # x = b @ CHR ''-'' # y"
  shows "a = b \<and> x = y"
proof -
  have "a = takeWhile is_digit (a @ CHR ''-'' # x)"
    using assms(1) by (simp only: takeWhile_digits_dash)
  also have "\<dots> = takeWhile is_digit (b @ CHR ''-'' # y)"
    by (simp only: assms(3))
  also have "\<dots> = b"
    using assms(2) by (simp only: takeWhile_digits_dash)
  finally have "a = b" .
  with assms(3) show ?thesis by simp
qed

lemma heading_id_eq:
  assumes "''h'' @ str_nat l @ ''-'' @ s = ''h'' @ str_nat l' @ ''-'' @ s'"
  shows "l = l' \<and> s = s'"
proof -
  from assms have "str_nat l @ CHR ''-'' # s = str_nat l' @ CHR ''-'' # s'" by simp
  from digits_dash_split[OF _ _ this] str_nat_digits
  have "str_nat l = str_nat l' \<and> s = s'" by blast
  then show ?thesis by (auto dest: str_nat_inj)
qed

definition is_heading :: "payload \<Rightarrow> bool" where
  "is_heading p = (case p of Heading l t s \<Rightarrow> True | _ \<Rightarrow> False)"

lemma other_id_eq:
  assumes "\<not> is_heading p" and "\<not> is_heading q"
    and "btype p @ ''-'' @ str_nat i = btype q @ ''-'' @ str_nat j"
  shows "i = j"
  using assms by (cases p; cases q) (auto simp: is_heading_def dest: str_nat_inj)

lemma heading_other_id_neq:
  assumes "\<not> is_heading q"
  shows "''h'' @ str_nat l @ ''-'' @ s \<noteq> btype q @ ''-'' @ str_nat j"
  using assms by (cases q) (auto simp: is_heading_def)

lemma base_id_eq:
  assumes "base_id p i = base_id q j" and "i \<noteq> j"
  shows "\<exists>l t s t' s'. p = Heading l t s \<and> q = Heading l t' s' \<and> slugify t = slugify t'"
proof (cases "is_heading p")
  case True
  then obtain l t s where p: "p = Heading l t s" by (cases p) (auto simp: is_heading_def)
  show ?thesis
  proof (cases "is_heading q")
    case True
    then obtain l' t' s' where q: "q = Heading l' t' s'" by (cases q) (auto simp: is_heading_def)
    from assms(1) p q have "''h'' @ str_nat l @ ''-'' @ slugify t = ''h'' @ str_nat l' @ ''-'' @ slugify t'"
      by (simp add: base_id_def)
    from heading_id_eq[OF this] p q show ?thesis by simp
  next
    case False
    then have "base_id q j = btype q @ ''-'' @ str_nat j"
      by (cases q) (simp_all add: base_id_def is_heading_def)
    with assms(1) p heading_other_id_neq[OF False, of l "slugify t" j] show ?thesis
      by (simp add: base_id_def)
  qed
next
  case False
  then have bp: "base_id p i = btype p @ ''-'' @ str_nat i"
    by (cases p) (simp_all add: base_id_def is_heading_def)
  show ?thesis
  proof (cases "is_heading q")
    case True
    then obtain l' t' s' where q: "q = Heading l' t' s'" by (cases q) (auto simp: is_heading_def)
    with assms(1) bp heading_other_id_neq[OF False, of l' "slugify t'" i] show ?thesis
      by (simp add: base_id_def)
  next
    case q: False
    then have "base_id q j = btype q @ ''-'' @ str_nat j"
      by (cases q) (simp_all add: base_id_def is_heading_def)
    with assms bp other_id_eq[OF False q, of i j] show ?thesis by simp
  qed
qed

definition numbered :: "block list \<times> nat \<Rightarrow> bool" where
  "numbered st \<longleftrightarrow>
     snd st = Suc (length (fst st))
     \<and> (\<forall>i<length (fst st).
           order (fst st ! i) = Suc i
           \<and> block_id (fst st ! i) = base_id (payload (fst st ! i)) (Suc i))"

lemma numbered_push_block: "numbered st \<Longrightarrow> numbered (push_block p st)"
  by (cases st) (auto simp: numbered_def push_block_def nth_append less_Suc_eq)

lemma handle_element_cases:
  "handle_element el st = st \<or> (\<exists>p. handle_element el st = push_block p st)"
  by (auto simp: handle_element_def Let_def split: option.splits prod.splits)

lemma numbered_handle_element: "numbered st \<Longrightarrow> numbered (handle_element el st)"
  using handle_element_cases[of el st] by (auto simp: numbered_push_block)

lemma numbered_foldl:
  "numbered st \<Longrightarrow>
     numbered (foldl (\<lambda>st child. case child of Tag n a cs \<Rightarrow> handle_element child st | _ \<Rightarrow> st) st xs)"
proof (induction xs arbitrary: st)
  case (Cons x xs)
  then show ?case by (cases x) (simp_all add: numbered_handle_element)
qed simp

lemma numbered_html_to_blocks:
  "i < length (html_to_blocks soup) \<Longrightarrow>
     order (html_to_blocks soup ! i) = Suc i
     \<and> block_id (html_to_blocks soup ! i) = base_id (payload (html_to_blocks soup ! i)) (Suc i)"
proof -
  have "numbered ([], 1)" by (simp add: numbered_def)
  from numbered_foldl[OF this] show "i < length (html_to_blocks soup) \<Longrightarrow> ?thesis"
    unfolding html_to_blocks_def numbered_def by blast
qed

text \<open>
  Claim C5 (as amended). In the block sequence produced from one HTML fragment the
  \<open>order\<close> values are exactly \<open>1..N\<close>, contiguous and strictly increasing in document
  order, with no gaps or duplicates; and two blocks of the sequence have the same
  \<open>block_id\<close> only when both are headings of the same level whose texts have the same
  slug.
\<close>

theorem orders_contiguous_ids_distinct_up_to_headings:
  "map order (html_to_blocks soup) = [1..<Suc (length (html_to_blocks soup))]
   \<and> (\<forall>i j. i < j \<and> j < length (html_to_blocks soup)
          \<and> block_id (html_to_blocks soup ! i) = block_id (html_to_blocks soup ! j)
        \<longrightarrow> (\<exists>l t s t' s'.
               payload (html_to_blocks soup ! i) = Heading l t s
               \<and> payload (html_to_blocks soup ! j) = Heading l t' s'
               \<and> slugify t = slugify t'))"
proof (intro conjI allI impI)
  show "map order (html_to_blocks soup) = [1..<Suc (length (html_to_blocks soup))]"
  proof (rule nth_equalityI)
    show "length (map order (html_to_blocks soup)) = length [1..<Suc (length (html_to_blocks soup))]"
      by (simp del: upt_Suc)
  next
    fix i assume "i < length (map order (html_to_blocks soup))"
    then have i: "i < length (html_to_blocks soup)" by simp
    with numbered_html_to_blocks[OF i]
    show "map order (html_to_blocks soup) ! i = [1..<Suc (length (html_to_blocks soup))] ! i"
      by (simp del: upt_Suc)
  qed
next
  fix i j
  assume a: "i < j \<and> j < length (html_to_blocks soup)
          \<and> block_id (html_to_blocks soup ! i) = block_id (html_to_blocks soup ! j)"
  then have i: "i < length (html_to_blocks soup)" and j: "j < length (html_to_blocks soup)"
    by simp_all
  from a numbered_html_to_blocks[OF i] numbered_html_to_blocks[OF j]
  have "base_id (payload (html_to_blocks soup ! i)) (Suc i)
          = base_id (payload (html_to_blocks soup ! j)) (Suc j)"
    by simp
  moreover from a have "Suc i \<noteq> Suc j" by simp
  ultimately show "\<exists>l t s t' s'.
               payload (html_to_blocks soup ! i) = Heading l t s
               \<and> payload (html_to_blocks soup ! j) = Heading l t' s'
               \<and> slugify t = slugify t'"
    by (rule base_id_eq)
qed

text \<open>A fragment with the same heading twice, around a paragraph.\<close>

definition twice_soup :: "node list" where
  "twice_soup =
     [Tag ''h2'' [] [Text ''Example''],
      Tag ''p'' [] [Text ''One''],
      Tag ''h2'' [] [Text ''Example'']]"

lemma twice_soup_ids:
  "map block_id (html_to_blocks twice_soup) = [''h2-example'', ''paragraph-2'', ''h2-example'']"
  by code_simp

lemma twice_soup_length: "length (html_to_blocks twice_soup) = 3"
  by code_simp

theorem orders_contiguous_ids_distinct_up_to_headings_witness:
  "map order (html_to_blocks twice_soup) = [1, 2, 3]
   \<and> block_id (html_to_blocks twice_soup ! 0) = block_id (html_to_blocks twice_soup ! 2)
   \<and> (\<exists>l t s t' s'.
         payload (html_to_blocks twice_soup ! 0) = Heading l t s
         \<and> payload (html_to_blocks twice_soup ! 2) = Heading l t' s'
         \<and> slugify t = slugify t')"
proof -
  note t = orders_contiguous_ids_distinct_up_to_headings[of twice_soup]
  have u: "[1..<Suc 3] = [1, 2, 3]" by code_simp
  from t have "map order (html_to_blocks twice_soup) = [1..<Suc (length (html_to_blocks twice_soup))]"
    by (rule conjunct1)
  then have a: "map order (html_to_blocks twice_soup) = [1, 2, 3]"
    by (simp only: twice_soup_length u)
  have b: "block_id (html_to_blocks twice_soup ! 0) = block_id (html_to_blocks twice_soup ! 2)"
    by code_simp
  have "(0::nat) < 2 \<and> 2 < length (html_to_blocks twice_soup)
          \<and> block_id (html_to_blocks twice_soup ! 0) = block_id (html_to_blocks twice_soup ! 2)"
    using b by (simp add: twice_soup_length)
  with t have c: "\<exists>l t s t' s'.
         payload (html_to_blocks twice_soup ! 0) = Heading l t s
         \<and> payload (html_to_blocks twice_soup ! 2) = Heading l t' s'
         \<and> slugify t = slugify t'"
    by blast
  from a b c show ?thesis by blast
qed

text \<open>
  The claim as given fails there: the two headings get the same \<open>block_id\<close>, so the
  ids of the sequence are not pairwise distinct.
\<close>

theorem repeated_heading_repeats_block_id:
  "map block_id (html_to_blocks twice_soup) = [''h2-example'', ''paragraph-2'', ''h2-example'']
   \<and> \<not> distinct (map block_id (html_to_blocks twice_soup))"
  by (simp add: twice_soup_ids)

subsection \<open>Callouts\<close>

text \<open>What the loop over the prefixes does to the first run once a prefix has matched.\<close>

definition strip_first_run :: "string \<Rightarrow> run list \<Rightarrow> run list" where
  "strip_first_run prefix runs =
     (case runs of
        [] \<Rightarrow> []
      | r # rs \<Rightarrow>
          if startswith (lower (run_text r)) prefix
          then r\<lparr>run_text := lstrip (drop (length prefix) (run_text r))\<rparr> # rs
          else r # rs)"

lemma detect_callout_first_match:
  "detect_callout ps t runs =
     (case find (\<lambda>pv. startswith (lower t) (fst pv)) ps of
        None \<Rightarrow> None
      | Some pv \<Rightarrow>
          Some (snd pv, lstrip (drop (length (fst pv)) t), strip_first_run (fst pv) runs))"
  by (induction ps t runs rule: detect_callout.induct) (simp_all add: strip_first_run_def)

lemma startswith_Cons:
  "startswith s (c # p) \<longleftrightarrow> (\<exists>s'. s = c # s' \<and> startswith s' p)"
  by (cases s) (auto simp: startswith_def)

lemma warning_first_match:
  assumes "startswith s ''warning:''"
  shows "find (\<lambda>pv. startswith s (fst pv)) prefixes = Some (''warning:'', ''warning'')"
proof -
  from assms obtain s' where s: "s = CHR ''w'' # s'" by (auto simp: startswith_Cons)
  then have "\<not> startswith s ''note:''" and "\<not> startswith s ''note :''"
    by (simp_all add: startswith_Cons)
  with assms show ?thesis by (simp add: prefixes_def)
qed

lemma strip_first_run_warning:
  "strip_first_run ''warning:'' runs =
     (case runs of
        [] \<Rightarrow> []
      | r # rs \<Rightarrow>
          if startswith (lower (run_text r)) ''warning:''
          then r\<lparr>run_text := lstrip (drop 8 (run_text r))\<rparr> # rs
          else r # rs)"
  by (cases runs) (simp_all add: strip_first_run_def eval_nat_numeral)

text \<open>
  Claim C6 (as amended). For every paragraph element whose extracted plain text, compared
  case-insensitively, starts with \<open>warning:\<close>, the emitted block is a \<open>Callout\<close> with
  variant \<open>warning\<close> whose text is the paragraph's text without its first 8 characters
  (the prefix) and with the leading white space trimmed; the prefix is also stripped from
  the first run's text only if that run's text began with the same prefix
  case-insensitively; the five prefixes are tested in the fixed priority order
  \<open>note:\<close>, \<open>note :\<close>, \<open>warning:\<close>, \<open>tip:\<close>, \<open>caution:\<close> and the first match wins.
\<close>

theorem warning_paragraph_becomes_callout:
  "(node_name el = Some n \<and> lower n = ''p''
      \<and> startswith (lower (node_to_text el)) ''warning:''
    \<longrightarrow> handle_element el (bs, ord) =
          (bs @ [\<lparr>payload =
                    Callout ''warning'' (lstrip (drop 8 (node_to_text el)))
                      (case inline_runs el of
                         [] \<Rightarrow> []
                       | r # rs \<Rightarrow>
                           if startswith (lower (run_text r)) ''warning:''
                           then r\<lparr>run_text := lstrip (drop 8 (run_text r))\<rparr> # rs
                           else r # rs),
                  block_id = ''callout-'' @ str_nat ord,
                  order = ord\<rparr>],
           ord + 1))
   \<and> detect_callout prefixes t runs =
       (case find (\<lambda>pv. startswith (lower t) (fst pv))
               [(''note:'', ''note''), (''note :'', ''note''), (''warning:'', ''warning''),
                (''tip:'', ''tip''), (''caution:'', ''caution'')] of
          None \<Rightarrow> None
        | Some pv \<Rightarrow>
            Some (snd pv, lstrip (drop (length (fst pv)) t),
                  (case runs of
                     [] \<Rightarrow> []
                   | r # rs \<Rightarrow>
                       if startswith (lower (run_text r)) (fst pv)
                       then r\<lparr>run_text := lstrip (drop (length (fst pv)) (run_text r))\<rparr> # rs
                       else r # rs)))"
proof (intro conjI impI)
  assume a: "node_name el = Some n \<and> lower n = ''p''
      \<and> startswith (lower (node_to_text el)) ''warning:''"
  then have m: "find (\<lambda>pv. startswith (lower (node_to_text el)) (fst pv)) prefixes
                  = Some (''warning:'', ''warning'')"
    by (simp add: warning_first_match)
  have d: "detect_callout prefixes (node_to_text el) (inline_runs el)
             = Some (''warning'', lstrip (drop 8 (node_to_text el)),
                     strip_first_run ''warning:'' (inline_runs el))"
    by (simp add: detect_callout_first_match m eval_nat_numeral)
  from a have "handle_element el (bs, ord)
                 = push_block (Callout ''warning'' (lstrip (drop 8 (node_to_text el)))
                                 (strip_first_run ''warning:'' (inline_runs el))) (bs, ord)"
    by (simp add: handle_element_def Let_def d)
  then show "handle_element el (bs, ord) =
          (bs @ [\<lparr>payload =
                    Callout ''warning'' (lstrip (drop 8 (node_to_text el)))
                      (case inline_runs el of
                         [] \<Rightarrow> []
                       | r # rs \<Rightarrow>
                           if startswith (lower (run_text r)) ''warning:''
                           then r\<lparr>run_text := lstrip (drop 8 (run_text r))\<rparr> # rs
                           else r # rs),
                  block_id = ''callout-'' @ str_nat ord,
                  order = ord\<rparr>],
           ord + 1)"
    by (simp add: push_block_def base_id_def strip_first_run_warning)
next
  show "detect_callout prefixes t runs =
       (case find (\<lambda>pv. startswith (lower t) (fst pv))
               [(''note:'', ''note''), (''note :'', ''note''), (''warning:'', ''warning''),
                (''tip:'', ''tip''), (''caution:'', ''caution'')] of
          None \<Rightarrow> None
        | Some pv \<Rightarrow>
            Some (snd pv, lstrip (drop (length (fst pv)) t),
                  (case runs of
                     [] \<Rightarrow> []
                   | r # rs \<Rightarrow>
                       if startswith (lower (run_text r)) (fst pv)
                       then r\<lparr>run_text := lstrip (drop (length (fst pv)) (run_text r))\<rparr> # rs
                       else r # rs)))"
    unfolding detect_callout_first_match strip_first_run_def prefixes_def ..
qed

text \<open>
  A paragraph \<open><p><br>Warning:  hot </p>\<close>: its text starts with the prefix, its first run
  is the line break.
\<close>

definition warning_p :: node where
  "warning_p = Tag ''p'' [] [Tag ''br'' [] [], Text ''Warning:  hot '']"

lemma warning_p_text: "node_to_text warning_p = ''Warning: hot''"
  by code_simp

lemma warning_p_runs:
  "inline_runs warning_p =
     [\<lparr>run_text = [CHR 0x0A], run_link = None, run_code = False\<rparr>,
      \<lparr>run_text = ''Warning: hot'', run_link = None, run_code = False\<rparr>]"
  by code_simp

theorem warning_paragraph_becomes_callout_witness:
  "node_name warning_p = Some ''p'' \<and> lower ''p'' = ''p''
   \<and> startswith (lower (node_to_text warning_p)) ''warning:''
   \<and> handle_element warning_p ([], 1) =
       ([\<lparr>payload =
            Callout ''warning'' ''hot''
              [\<lparr>run_text = [CHR 0x0A], run_link = None, run_code = False\<rparr>,
               \<lparr>run_text = ''Warning: hot'', run_link = None, run_code = False\<rparr>],
          block_id = ''callout-1'',
          order = 1\<rparr>],
        2)"
proof -
  have p1: "node_name warning_p = Some ''p''" by code_simp
  have p2: "lower ''p'' = ''p''" by code_simp
  have p3: "startswith (lower (node_to_text warning_p)) ''warning:''" by code_simp
  have t1: "lstrip '' hot'' = ''hot''" by code_simp
  have t2: "startswith (lower [CHR 0x0A]) ''warning:'' = False" by code_simp
  have t3: "str_nat (Suc 0) = ''1''" by code_simp
  from warning_paragraph_becomes_callout[of warning_p "''p''" "[]" 1] p1 p2 p3
  have "handle_element warning_p ([], 1) =
          ([] @ [\<lparr>payload =
                    Callout ''warning'' (lstrip (drop 8 (node_to_text warning_p)))
                      (case inline_runs warning_p of
                         [] \<Rightarrow> []
                       | r # rs \<Rightarrow>
                           if startswith (lower (run_text r)) ''warning:''
                           then r\<lparr>run_text := lstrip (drop 8 (run_text r))\<rparr> # rs
                           else r # rs),
                  block_id = ''callout-'' @ str_nat 1,
                  order = 1\<rparr>],
           1 + 1)"
    by blast
  then have "handle_element warning_p ([], 1) =
       ([\<lparr>payload =
            Callout ''warning'' ''hot''
              [\<lparr>run_text = [CHR 0x0A], run_link = None, run_code = False\<rparr>,
               \<lparr>run_text = ''Warning: hot'', run_link = None, run_code = False\<rparr>],
          block_id = ''callout-1'',
          order = 1\<rparr>],
        2)"
    by (simp add: warning_p_text warning_p_runs t1 t2 t3)
  with p1 p2 p3 show ?thesis by blast
qed

text \<open>
  The claim as given fails on \<open><p>Warning: warning: x</p>\<close>: one prefix is stripped, and
  the text of the callout still holds the prefix.
\<close>

theorem callout_text_still_holds_prefix:
  "startswith (lower (node_to_text (Tag ''p'' [] [Text ''Warning: warning: x'']))) ''warning:''
   \<and> map payload (fst (handle_element (Tag ''p'' [] [Text ''Warning: warning: x'']) ([], 1))) =
       [Callout ''warning'' ''warning: x''
          [\<lparr>run_text = ''warning: x'', run_link = None, run_code = False\<rparr>]]
   \<and> contains ''warning:'' ''warning: x''"
  by code_simp

end
